theory Spec2Isabelle
  imports Main
begin

section \<open>Python values, errors and objects\<close>

text \<open>
  The repository stores plain model objects in SQLite. The values that travel between Python
  and SQLite in this development are \<open>None\<close>, integers and strings; floats, bytes and
  user-defined adapters are not modelled. A Python object is its attribute dictionary, so
  \<open>getattr(obj, n)\<close> is a lookup and \<open>setattr(obj, n, v)\<close> an update; two objects agree
  field for field exactly when the lookups agree.
\<close>

datatype pyval = PyNone | PyInt int | PyStr string

datatype py_error =
    ValueError | KeyError | AttributeError | IndexError | OverflowError
  | OperationalError | Unmodelled

type_synonym pyobj = "string \<rightharpoonup> pyval"

text \<open>\<open>str(i)\<close> for an integer: decimal digits, with a leading minus sign.\<close>

definition digit_char :: "nat \<Rightarrow> char" where
  "digit_char d = ''0123456789'' ! (d mod 10)"

fun show_nat :: "nat \<Rightarrow> string" where
  "show_nat n = (if n < 10 then [digit_char n] else show_nat (n div 10) @ [digit_char (n mod 10)])"

declare show_nat.simps [simp del]

definition show_int :: "int \<Rightarrow> string" where
  "show_int i = (if i < 0 then CHR ''-'' # show_nat (nat (- i)) else show_nat (nat i))"

fun py_str :: "pyval \<Rightarrow> string" where
  "py_str PyNone = ''None''"
| "py_str (PyInt i) = show_int i"
| "py_str (PyStr s) = s"

text \<open>\<open>sep.join(xs)\<close>.\<close>

fun py_join :: "string \<Rightarrow> string list \<Rightarrow> string" where
  "py_join sep [] = []"
| "py_join sep [x] = x"
| "py_join sep (x # y # ys) = x @ sep @ py_join sep (y # ys)"

text \<open>\<open>s.find(sub)\<close>: the lowest index at which \<open>sub\<close> occurs in \<open>s\<close>, or \<open>-1\<close>.\<close>

fun find_from :: "string \<Rightarrow> string \<Rightarrow> nat \<Rightarrow> int" where
  "find_from sub [] i = (if sub = [] then int i else - 1)"
| "find_from sub (c # cs) i =
     (if take (length sub) (c # cs) = sub then int i else find_from sub cs (Suc i))"

definition py_find :: "string \<Rightarrow> string \<Rightarrow> int" where
  "py_find s sub = find_from sub s 0"

text \<open>\<open>d.pop(k)\<close> on a dictionary kept as an association list in insertion order.\<close>

definition dict_pop :: "string \<Rightarrow> (string \<times> 'v) list \<Rightarrow> py_error + (string \<times> 'v) list" where
  "dict_pop k d =
     (if k \<in> set (map fst d) then Inr (filter (\<lambda>kv. fst kv \<noteq> k) d) else Inl KeyError)"

section \<open>The SQLite file\<close>

text \<open>
  One database file holds one table per model class, keyed by the class name. A table keeps
  the column definitions it was created with and its rows in ascending \<open>rowid\<close> order, which
  is the order in which \<open>SELECT *\<close> without \<open>ORDER BY\<close> scans a rowid table. The column
  \<open>pk INTEGER PRIMARY KEY\<close>, always the last one, is the rowid; \<open>SELECT *\<close> therefore yields
  the stored cells followed by the rowid.

  A table is assumed to be read and written only through the repository whose constructor
  created it, and class and field names are assumed to be plain SQL identifiers. Rowids are
  unbounded integers here; SQLite's ceiling of \<open>2^63 - 1\<close> is not modelled.
\<close>

record row =
  cells :: "pyval list"
  rowid :: int

record table =
  columns :: "string list"
  rows :: "row list"

type_synonym database = "string \<rightharpoonup> table"

definition select_tuple :: "row \<Rightarrow> pyval list" where
  "select_tuple r = cells r @ [PyInt (rowid r)]"

definition in_int64 :: "int \<Rightarrow> bool" where
  "in_int64 i \<longleftrightarrow> - 9223372036854775808 \<le> i \<and> i \<le> 9223372036854775807"

text \<open>
  Column affinity, applied when a value is stored. A \<open>TEXT\<close> column turns an integer into
  its decimal text. An \<open>INTEGER\<close> column turns a text that is an integer literal (an optional
  sign and digits) within 64 bits into that integer and leaves a text without any digit as
  it is. Other texts with digits may become floating-point numbers, which are outside this
  development: the model stops with \<open>Unmodelled\<close> there.
\<close>

definition is_digit :: "char \<Rightarrow> bool" where
  "is_digit c \<longleftrightarrow> c \<in> set ''0123456789''"

definition digit_val :: "char \<Rightarrow> nat" where
  "digit_val c = (of_char c :: nat) - 48"

definition nat_of_digits :: "string \<Rightarrow> nat" where
  "nat_of_digits ds = foldl (\<lambda>a c. 10 * a + digit_val c) 0 ds"

fun int_literal :: "string \<Rightarrow> int option" where
  "int_literal [] = None"
| "int_literal (c # cs) =
     (if c = CHR ''-'' \<or> c = CHR ''+'' then
        (if cs \<noteq> [] \<and> list_all is_digit cs
         then Some ((if c = CHR ''-'' then - 1 else 1) * int (nat_of_digits cs)) else None)
      else if list_all is_digit (c # cs) then Some (int (nat_of_digits (c # cs))) else None)"

definition affinity :: "string \<Rightarrow> pyval \<Rightarrow> py_error + pyval" where
  "affinity decl v =
     (if decl = ''INTEGER'' then
        (case v of
           PyStr s \<Rightarrow>
             (case int_literal s of
                Some n \<Rightarrow> if in_int64 n then Inr (PyInt n) else Inl Unmodelled
              | None \<Rightarrow> if list_ex is_digit s then Inl Unmodelled else Inr (PyStr s))
         | _ \<Rightarrow> Inr v)
      else
        (case v of PyInt n \<Rightarrow> Inr (PyStr (show_int n)) | _ \<Rightarrow> Inr v))"

fun store_cells :: "string list \<Rightarrow> pyval list \<Rightarrow> py_error + pyval list" where
  "store_cells (d # ds) (v # vs) =
     (case affinity d v of
        Inl e \<Rightarrow> Inl e
      | Inr c \<Rightarrow> (case store_cells ds vs of Inl e \<Rightarrow> Inl e | Inr cs \<Rightarrow> Inr (c # cs)))"
| "store_cells _ _ = Inr []"

text \<open>
  The rowid of a new row: 1 in an empty table, otherwise one more than the largest rowid.
\<close>

fun next_rowid :: "row list \<Rightarrow> int" where
  "next_rowid [] = 1"
| "next_rowid (r # rs) = fold max (map rowid rs) (rowid r) + 1"

text \<open>
  \<open>INSERT INTO t (names) VALUES (?, ..., ?)\<close> with the values bound to the placeholders.
  An empty column list is a syntax error and a missing table is an error of the statement's
  preparation; an integer beyond 64 bits is refused when the parameters are bound.
\<close>

definition sql_insert ::
  "string \<Rightarrow> string list \<Rightarrow> string list \<Rightarrow> pyval list \<Rightarrow> database
     \<Rightarrow> py_error + (int \<times> database)" where
  "sql_insert tname names decls vals db =
     (if names = [] then Inl OperationalError
      else case db tname of
        None \<Rightarrow> Inl OperationalError
      | Some t \<Rightarrow>
          if list_ex (\<lambda>v. case v of PyInt i \<Rightarrow> \<not> in_int64 i | _ \<Rightarrow> False) vals
          then Inl OverflowError
          else (case store_cells decls vals of
                  Inl e \<Rightarrow> Inl e
                | Inr cs \<Rightarrow>
                    let k = next_rowid (rows t)
                    in Inr (k, db(tname \<mapsto> t\<lparr>rows := rows t @ [\<lparr>cells = cs, rowid = k\<rparr>]\<rparr>))))"

text \<open>\<open>SELECT * FROM t\<close> and \<open>SELECT * FROM t WHERE pk = k\<close> followed by \<open>fetchone\<close>.\<close>

definition sql_select_all :: "string \<Rightarrow> database \<Rightarrow> py_error + pyval list list" where
  "sql_select_all tname db =
     (case db tname of
        None \<Rightarrow> Inl OperationalError
      | Some t \<Rightarrow> Inr (map select_tuple (rows t)))"

definition sql_select_pk :: "string \<Rightarrow> int \<Rightarrow> database \<Rightarrow> py_error + pyval list option" where
  "sql_select_pk tname k db =
     (case db tname of
        None \<Rightarrow> Inl OperationalError
      | Some t \<Rightarrow> Inr (map_option select_tuple (find (\<lambda>r. rowid r = k) (rows t))))"

text \<open>\<open>DELETE FROM t WHERE pk = k\<close>.\<close>

definition sql_delete :: "string \<Rightarrow> int \<Rightarrow> database \<Rightarrow> py_error + database" where
  "sql_delete tname k db =
     (case db tname of
        None \<Rightarrow> Inl OperationalError
      | Some t \<Rightarrow> Inr (db(tname \<mapsto> t\<lparr>rows := filter (\<lambda>r. rowid r \<noteq> k) (rows t)\<rparr>)))"

text \<open>
  \<open>UPDATE t SET n1 = 'x1', ..., nm = 'xm' WHERE pk = p\<close>, where the texts \<open>xi\<close> and \<open>p\<close>
  have been pasted into the statement. Every value reaches SQLite as a text literal and then
  takes the affinity of its column. An empty assignment list is a syntax error. A text with
  a quote character changes how the statement is read, and a key pasted from a string is
  read as an SQL expression: the model stops with \<open>Unmodelled\<close> in both cases. \<open>None\<close> as the
  key is pasted as the name \<open>None\<close>, which is no column.
\<close>

definition sql_update ::
  "string \<Rightarrow> string list \<Rightarrow> string list \<Rightarrow> string list \<Rightarrow> pyval \<Rightarrow> database
     \<Rightarrow> py_error + database" where
  "sql_update tname names decls texts key db =
     (if names = [] then Inl OperationalError
      else if list_ex (\<lambda>x. CHR 0x27 \<in> set x) texts then Inl Unmodelled
      else case key of
        PyStr s \<Rightarrow> Inl Unmodelled
      | PyNone \<Rightarrow> Inl OperationalError
      | PyInt k \<Rightarrow>
          (case db tname of
             None \<Rightarrow> Inl OperationalError
           | Some t \<Rightarrow>
               if list_ex (\<lambda>r. rowid r = k) (rows t) then
                 (case store_cells decls (map PyStr texts) of
                    Inl e \<Rightarrow> Inl e
                  | Inr cs \<Rightarrow>
                      Inr (db(tname \<mapsto> t\<lparr>rows :=
                             map (\<lambda>r. if rowid r = k then r\<lparr>cells := cs\<rparr> else r) (rows t)\<rparr>)))
               else Inr db))"

section \<open>The repository\<close>

text \<open>
  A model class is known by its name, its annotations (field name and the text \<open>str\<close> gives
  for the declared type, in declaration order) and the object its default constructor builds.
\<close>

record pyclass =
  cls_name :: string
  annotations :: "(string \<times> string) list"
  cls_new :: pyobj

record repository =
  cls :: pyclass
  table_name :: string
  fields' :: "(string \<times> string) list"

definition type_check :: "string \<Rightarrow> string" where
  "type_check val = (if py_find val ''int'' \<noteq> - 1 then ''INTEGER'' else ''TEXT'')"

definition column_defs :: "(string \<times> string) list \<Rightarrow> string list" where
  "column_defs fs =
     (let keys = map fst fs;
          vals = map snd fs;
          vals = map type_check vals;
          names = map (\<lambda>(k, v). k @ '' '' @ v) (zip keys vals)
      in names @ [''pk INTEGER PRIMARY KEY''])"

definition create_table_sql :: "string \<Rightarrow> (string \<times> string) list \<Rightarrow> string" where
  "create_table_sql tname fs =
     ''CREATE TABLE IF NOT EXISTS '' @ tname @ '' ('' @ py_join '', '' (column_defs fs) @ '')''"

text \<open>
  \<open>SQLiteRepository.__init__\<close>: the annotations without \<open>pk\<close> become the fields, and the
  table named after the class is dropped and created again with the inferred columns.
\<close>

definition init_repository :: "pyclass \<Rightarrow> database \<Rightarrow> py_error + (repository \<times> database)" where
  "init_repository c db =
     (case dict_pop ''pk'' (annotations c) of
        Inl e \<Rightarrow> Inl e
      | Inr fs \<Rightarrow>
          let tname = cls_name c;
              db1 = db(tname := None);
              db2 = (case db1 tname of
                       None \<Rightarrow> db1(tname \<mapsto> \<lparr>columns = column_defs fs, rows = []\<rparr>)
                     | Some t \<Rightarrow> db1)
          in Inr (\<lparr>cls = c, table_name = tname, fields' = fs\<rparr>, db2))"

definition field_names :: "repository \<Rightarrow> string list" where
  "field_names repo = map fst (fields' repo)"

definition field_decls :: "repository \<Rightarrow> string list" where
  "field_decls repo = map (type_check \<circ> snd) (fields' repo)"

fun getattrs :: "pyobj \<Rightarrow> string list \<Rightarrow> py_error + pyval list" where
  "getattrs obj [] = Inr []"
| "getattrs obj (n # ns) =
     (case obj n of
        None \<Rightarrow> Inl AttributeError
      | Some v \<Rightarrow> (case getattrs obj ns of Inl e \<Rightarrow> Inl e | Inr vs \<Rightarrow> Inr (v # vs)))"

text \<open>
  \<open>add\<close> returns its outcome together with the object, whose \<open>pk\<close> it assigns in place, and
  the database.
\<close>

definition add ::
  "repository \<Rightarrow> pyobj \<Rightarrow> database \<Rightarrow> (py_error + int) \<times> pyobj \<times> database" where
  "add repo obj db =
     (if obj ''pk'' \<noteq> Some (PyInt 0) then (Inl ValueError, obj, db)
      else case getattrs obj (field_names repo) of
        Inl e \<Rightarrow> (Inl e, obj, db)
      | Inr vals \<Rightarrow>
          (case sql_insert (table_name repo) (field_names repo) (field_decls repo) vals db of
             Inl e \<Rightarrow> (Inl e, obj, db)
           | Inr (k, db') \<Rightarrow> (Inr k, obj(''pk'' \<mapsto> PyInt k), db')))"

text \<open>
  The loop \<open>for i in range(len(names)): setattr(obj, names[i], tuple_obj[i])\<close>; reading past
  the end of the tuple raises \<open>IndexError\<close>.
\<close>

fun setattrs :: "pyobj \<Rightarrow> string list \<Rightarrow> pyval list \<Rightarrow> py_error + pyobj" where
  "setattrs obj [] vs = Inr obj"
| "setattrs obj (n # ns) [] = Inl IndexError"
| "setattrs obj (n # ns) (v # vs) = setattrs (obj(n \<mapsto> v)) ns vs"

definition row_names :: "repository \<Rightarrow> string list" where
  "row_names repo = field_names repo @ [''pk'']"

definition get :: "repository \<Rightarrow> int \<Rightarrow> database \<Rightarrow> py_error + pyobj option" where
  "get repo k db =
     (case sql_select_pk (table_name repo) k db of
        Inl e \<Rightarrow> Inl e
      | Inr None \<Rightarrow> Inr None
      | Inr (Some tuple_obj) \<Rightarrow>
          (case setattrs (cls_new (cls repo)) (row_names repo) tuple_obj of
             Inl e \<Rightarrow> Inl e
           | Inr obj \<Rightarrow> Inr (Some obj)))"

fun build_objs :: "repository \<Rightarrow> pyval list list \<Rightarrow> py_error + pyobj list" where
  "build_objs repo [] = Inr []"
| "build_objs repo (tuple_obj # ts) =
     (case setattrs (cls_new (cls repo)) (row_names repo) tuple_obj of
        Inl e \<Rightarrow> Inl e
      | Inr obj \<Rightarrow> (case build_objs repo ts of Inl e \<Rightarrow> Inl e | Inr objs \<Rightarrow> Inr (obj # objs)))"

text \<open>
  The filter \<open>all(getattr(obj, attr) == where[attr] for attr in where.keys())\<close>. The filter
  dictionary is its list of entries in insertion order; \<open>all\<close> stops at the first entry that
  does not match, so a later name is looked up only if every earlier entry matched.
\<close>

fun matches :: "pyobj \<Rightarrow> (string \<times> pyval) list \<Rightarrow> py_error + bool" where
  "matches obj [] = Inr True"
| "matches obj ((attr, v) # ws) =
     (case obj attr of
        None \<Rightarrow> Inl AttributeError
      | Some x \<Rightarrow> if x = v then matches obj ws else Inr False)"

fun filter_objs :: "pyobj list \<Rightarrow> (string \<times> pyval) list \<Rightarrow> py_error + pyobj list" where
  "filter_objs [] w = Inr []"
| "filter_objs (obj # objs) w =
     (case matches obj w of
        Inl e \<Rightarrow> Inl e
      | Inr b \<Rightarrow>
          (case filter_objs objs w of
             Inl e \<Rightarrow> Inl e
           | Inr rest \<Rightarrow> Inr (if b then obj # rest else rest)))"

definition get_all ::
  "repository \<Rightarrow> (string \<times> pyval) list option \<Rightarrow> database \<Rightarrow> py_error + pyobj list" where
  "get_all repo where db =
     (case sql_select_all (table_name repo) db of
        Inl e \<Rightarrow> Inl e
      | Inr tuple_objs \<Rightarrow>
          (case build_objs repo tuple_objs of
             Inl e \<Rightarrow> Inl e
           | Inr objs \<Rightarrow> (case where of None \<Rightarrow> Inr objs | Some w \<Rightarrow> filter_objs objs w)))"

definition update :: "repository \<Rightarrow> pyobj \<Rightarrow> database \<Rightarrow> (py_error + unit) \<times> database" where
  "update repo obj db =
     (case obj ''pk'' of
        None \<Rightarrow> (Inl AttributeError, db)
      | Some key \<Rightarrow>
          if key = PyInt 0 then (Inl ValueError, db)
          else (case getattrs obj (field_names repo) of
                  Inl e \<Rightarrow> (Inl e, db)
                | Inr vals \<Rightarrow>
                    (case sql_update (table_name repo) (field_names repo) (field_decls repo)
                            (map py_str vals) key db of
                       Inl e \<Rightarrow> (Inl e, db)
                     | Inr db' \<Rightarrow> (Inr (), db'))))"

definition delete :: "repository \<Rightarrow> int \<Rightarrow> database \<Rightarrow> (py_error + unit) \<times> database" where
  "delete repo k db =
     (case get repo k db of
        Inl e \<Rightarrow> (Inl e, db)
      | Inr None \<Rightarrow> (Inl KeyError, db)
      | Inr (Some obj) \<Rightarrow>
          (case sql_delete (table_name repo) k db of
             Inl e \<Rightarrow> (Inl e, db)
           | Inr db' \<Rightarrow> (Inr (), db')))"

section \<open>Well-formed states and valid records\<close>

text \<open>
  The states a repository can be in: its field names are the keys of a dictionary from which
  \<open>pk\<close> was popped, its table exists, the rows are in ascending order of positive rowids,
  and every row has one cell per field. The constructor establishes this and \<open>add\<close>,
  \<open>update\<close> and \<open>delete\<close> keep it.
\<close>

definition repo_inv :: "repository \<Rightarrow> database \<Rightarrow> bool" where
  "repo_inv repo db \<longleftrightarrow>
     distinct (field_names repo) \<and> ''pk'' \<notin> set (field_names repo) \<and>
     (case db (table_name repo) of
        None \<Rightarrow> False
      | Some t \<Rightarrow>
          sorted_wrt (<) (map rowid (rows t)) \<and>
          (\<forall>r \<in> set (rows t). 0 < rowid r \<and> length (cells r) = length (field_names repo)))"






section \<open>Example models\<close>

text \<open>
  \<open>TestModel\<close> of the test suite (\<open>pk: int = 0\<close>, \<open>comment: str = ''\<close>), a category model
  with a text field and an optional integer field as the presenter reads it
  (\<open>name\<close>, \<open>parent\<close>, \<open>pk\<close>), and a model that declares nothing but \<open>pk\<close>.
\<close>

definition test_model :: pyclass where
  "test_model =
     \<lparr>cls_name = ''TestModel'',
      annotations = [(''pk'', ''<class 'int'>''), (''comment'', ''<class 'str'>'')],
      cls_new = [''pk'' \<mapsto> PyInt 0, ''comment'' \<mapsto> PyStr []]\<rparr>"

definition test_repo :: repository where
  "test_repo =
     \<lparr>cls = test_model, table_name = ''TestModel'',
      fields' = [(''comment'', ''<class 'str'>'')]\<rparr>"

definition test_db :: "row list \<Rightarrow> database" where
  "test_db rs =
     [''TestModel'' \<mapsto>
        \<lparr>columns = [''comment TEXT'', ''pk INTEGER PRIMARY KEY''], rows = rs\<rparr>]"

definition category_model :: pyclass where
  "category_model =
     \<lparr>cls_name = ''Category'',
      annotations =
        [(''name'', ''<class 'str'>''), (''parent'', ''int | None''), (''pk'', ''<class 'int'>'')],
      cls_new = [''name'' \<mapsto> PyStr [], ''parent'' \<mapsto> PyNone, ''pk'' \<mapsto> PyInt 0]\<rparr>"

definition category_repo :: repository where
  "category_repo =
     \<lparr>cls = category_model, table_name = ''Category'',
      fields' = [(''name'', ''<class 'str'>''), (''parent'', ''int | None'')]\<rparr>"

definition category_db :: "row list \<Rightarrow> database" where
  "category_db rs =
     [''Category'' \<mapsto>
        \<lparr>columns = [''name TEXT'', ''parent INTEGER'', ''pk INTEGER PRIMARY KEY''], rows = rs\<rparr>]"




section \<open>The tree view\<close>

text \<open>
  \<open>TreeView\<close> keeps its rows in a Qt item model. An item has a text, a column count and rows
  of cells; a cell is an item or empty, and every row has as many cells as the item has
  columns. \<open>QStandardItem(text)\<close> is an item without columns and rows, \<open>appendRow\<close> widens the
  item to the length of the new row if needed and fills shorter rows with empty cells, and
  \<open>child(i, j)\<close> is \<open>None\<close> outside the rows and columns.
\<close>

datatype item = Item (item_text: string) (column_count: nat) (item_rows: "item option list list")

definition new_item :: "string \<Rightarrow> item" where
  "new_item s = Item s 0 []"

definition row_count :: "item \<Rightarrow> nat" where
  "row_count it = length (item_rows it)"

definition has_children :: "item \<Rightarrow> bool" where
  "has_children it \<longleftrightarrow> 0 < row_count it \<and> 0 < column_count it"

definition child :: "item \<Rightarrow> nat \<Rightarrow> nat \<Rightarrow> item option" where
  "child it i j =
     (if i < row_count it \<and> j < length (item_rows it ! i)
      then item_rows it ! i ! j else None)"

definition pad_row :: "nat \<Rightarrow> item option list \<Rightarrow> item option list" where
  "pad_row n r = r @ replicate (n - length r) None"

definition append_row :: "item \<Rightarrow> item list \<Rightarrow> item" where
  "append_row it its =
     (let c = max (column_count it) (length its)
      in Item (item_text it) c (map (pad_row c) (item_rows it) @ [pad_row c (map Some its)]))"

fun well_formed :: "item \<Rightarrow> bool" where
  "well_formed (Item t c rs) \<longleftrightarrow>
     (\<forall>r \<in> set rs. length r = c \<and>
        (\<forall>x \<in> set r. case x of None \<Rightarrow> True | Some y \<Rightarrow> well_formed y))"

text \<open>
  The code keeps references to items in \<open>seen\<close> and appends rows through them. An item of
  the model is referenced here by its position: the row indices to follow from the root,
  always through the first column. Rows are only ever appended, so a position keeps
  denoting the same item.
\<close>

fun item_at :: "item \<Rightarrow> nat list \<Rightarrow> item option" where
  "item_at it [] = Some it"
| "item_at it (i # p) = (case child it i 0 of None \<Rightarrow> None | Some x \<Rightarrow> item_at x p)"

fun append_row_at :: "nat list \<Rightarrow> item list \<Rightarrow> item \<Rightarrow> item" where
  "append_row_at [] its it = append_row it its"
| "append_row_at (i # p) its it =
     (case child it i 0 of
        None \<Rightarrow> it
      | Some x \<Rightarrow>
          Item (item_text it) (column_count it)
            ((item_rows it)[i := (item_rows it ! i)[0 := Some (append_row_at p its x)]]))"

text \<open>
  The dictionaries \<open>import_data\<close> receives, in the shape its docstring gives:
  \<open>{'unique_id': int, 'parent_id': int | None, 'other_field': Any, ...}\<close>. The first two
  keys are the identifiers; the entries after them become the cells of the row.
\<close>

record tree_record =
  unique_id :: int
  parent_id :: "int option"
  other_fields :: "(string \<times> pyval) list"

record import_state =
  queue :: "tree_record list"
  seen :: "int \<rightharpoonup> nat list option"
  root :: item

definition make_row :: "tree_record \<Rightarrow> item list" where
  "make_row v = map (\<lambda>(name, x). new_item (py_str x)) (other_fields v)"

text \<open>
  The parent of a record: the root for \<open>parent_id == 0\<close>, the item remembered for
  \<open>parent_id\<close> if there is one, and otherwise none yet, in which case the record goes back
  to the end of the queue. The remembered item itself may be \<open>None\<close>.
\<close>

datatype parent_lookup = Requeue | Parent "nat list option"

definition find_parent :: "import_state \<Rightarrow> tree_record \<Rightarrow> parent_lookup" where
  "find_parent s v =
     (if parent_id v = Some 0 then Parent (Some [])
      else case parent_id v of
        None \<Rightarrow> Requeue
      | Some pid \<Rightarrow> (case seen s pid of None \<Rightarrow> Requeue | Some ref \<Rightarrow> Parent ref))"

text \<open>
  \<open>parent.appendRow(row)\<close> followed by
  \<open>seen[value['unique_id']] = parent.child(parent.rowCount() - 1)\<close>.
\<close>

definition attach :: "import_state \<Rightarrow> tree_record \<Rightarrow> nat list \<Rightarrow> import_state" where
  "attach s v p =
     (let root' = append_row_at p (make_row v) (root s);
          ref = (case item_at root' p of
                   None \<Rightarrow> None
                 | Some parent \<Rightarrow>
                     (case child parent (row_count parent - 1) 0 of
                        None \<Rightarrow> None
                      | Some c \<Rightarrow> Some (p @ [row_count parent - 1])))
      in s\<lparr>seen := (seen s)(unique_id v \<mapsto> ref), root := root'\<rparr>)"

text \<open>
  The loop \<open>while values: ...\<close>. It need not end, so its result is optional: \<open>None\<close> means
  that the loop runs forever. Appending a row to \<open>None\<close> raises \<open>AttributeError\<close>.
\<close>

partial_function (option) import_loop :: "import_state \<Rightarrow> (py_error + import_state) option" where
  "import_loop s =
     (case queue s of
        [] \<Rightarrow> Some (Inr s)
      | v # rest \<Rightarrow>
          (case find_parent s v of
             Requeue \<Rightarrow> import_loop (s\<lparr>queue := rest @ [v]\<rparr>)
           | Parent None \<Rightarrow> Some (Inl AttributeError)
           | Parent (Some p) \<Rightarrow> import_loop (attach (s\<lparr>queue := rest\<rparr>) v p)))"

text \<open>
  \<open>import_data\<close> empties the model (\<open>setRowCount(0)\<close> keeps the columns of the root) and runs
  the loop on the whole input.
\<close>

definition import_start :: "item \<Rightarrow> tree_record list \<Rightarrow> import_state" where
  "import_start model_root data =
     \<lparr>queue = data, seen = Map.empty,
      root = Item (item_text model_root) (column_count model_root) []\<rparr>"

definition import_data :: "item \<Rightarrow> tree_record list \<Rightarrow> (py_error + item) option" where
  "import_data model_root data =
     (case import_loop (import_start model_root data) of
        None \<Rightarrow> None
      | Some (Inl e) \<Rightarrow> Some (Inl e)
      | Some (Inr s) \<Rightarrow> Some (Inr (root s)))"

text \<open>
  \<open>get_children\<close> flattens the model into dictionaries, one per row, each with the texts of
  the row's cells under the view's field names (\<open>names\<close>, the view's \<open>fields\<close>) and the nesting level as a text. The columns
  of a row are visited from the last to the first; the row is put out at column 0, before
  the rows below the item of that column. A cell beyond the field names raises
  \<open>IndexError\<close>. \<open>cols_loop\<close> yields the dictionary of the row and the output so far.
\<close>

fun get_children ::
      "string list \<Rightarrow> item option \<Rightarrow> nat \<Rightarrow> py_error + (string \<rightharpoonup> string) list"
  and rows_loop ::
      "string list \<Rightarrow> item option list list \<Rightarrow> nat \<Rightarrow> py_error + (string \<rightharpoonup> string) list"
  and cols_loop ::
      "string list \<Rightarrow> nat \<Rightarrow> item option list \<Rightarrow> (string \<rightharpoonup> string) \<Rightarrow> nat
         \<Rightarrow> py_error + ((string \<rightharpoonup> string) \<times> (string \<rightharpoonup> string) list)"
where
  "get_children names None level = Inr []"
| "get_children names (Some (Item t c rs)) level =
     (if 0 < length rs \<and> 0 < c then rows_loop names rs (level + 1) else Inr [])"
| "rows_loop names [] lvl = Inr []"
| "rows_loop names (r # rs) lvl =
     (case cols_loop names 0 r (map_of (map (\<lambda>field. (field, '' '')) names)) lvl of
        Inl e \<Rightarrow> Inl e
      | Inr (row, out) \<Rightarrow>
          (case rows_loop names rs lvl of
             Inl e \<Rightarrow> Inl e
           | Inr below \<Rightarrow> Inr (out @ below)))"
| "cols_loop names j [] row lvl = Inr (row, [])"
| "cols_loop names j (c # cs) row lvl =
     (case cols_loop names (Suc j) cs row lvl of
        Inl e \<Rightarrow> Inl e
      | Inr (row1, out1) \<Rightarrow>
          (case (case c of
                   None \<Rightarrow> Inr row1
                 | Some x \<Rightarrow>
                     if j < length names then Inr (row1(names ! j \<mapsto> item_text x))
                     else Inl IndexError) of
             Inl e \<Rightarrow> Inl e
           | Inr row2 \<Rightarrow>
               let row3 = (if j = 0 then row2(''level'' \<mapsto> show_int (int lvl)) else row2);
                   out2 = (if j = 0 then out1 @ [row3] else out1)
               in (case get_children names c lvl of
                     Inl e \<Rightarrow> Inl e
                   | Inr sub \<Rightarrow> Inr (row3, out2 @ sub))))"

text \<open>The fields of the view: \<open>Name\<close> and the annotated fields of the expense model.\<close>

definition view_fields :: "string list \<Rightarrow> string list" where
  "view_fields expense_fields = ''Name'' # expense_fields"

text \<open>The input of the specification's example: node 2 under node 1, listed before it.\<close>

definition node :: "int \<Rightarrow> int \<Rightarrow> string \<Rightarrow> tree_record" where
  "node uid pid name =
     \<lparr>unique_id = uid, parent_id = Some pid, other_fields = [(''short_name'', PyStr name)]\<rparr>"

text \<open>
  An orphan is a record whose \<open>parent_id\<close> is not 0 and is no record's \<open>unique_id\<close>. A
  parent identifier is rooted when it is 0 or the \<open>unique_id\<close> of a record whose own
  \<open>parent_id\<close> is rooted: following parent identifiers from it ends at the root.
\<close>

definition orphan :: "tree_record list \<Rightarrow> tree_record \<Rightarrow> bool" where
  "orphan data v \<longleftrightarrow> parent_id v \<noteq> Some 0 \<and> parent_id v \<notin> Some ` unique_id ` set data"

inductive rooted :: "tree_record list \<Rightarrow> int option \<Rightarrow> bool" for data where
  rooted_zero: "rooted data (Some 0)"
| rooted_child: "u \<in> set data \<Longrightarrow> rooted data (parent_id u) \<Longrightarrow> rooted data (Some (unique_id u))"

definition all_have_fields :: "tree_record list \<Rightarrow> bool" where
  "all_have_fields data \<longleftrightarrow> (\<forall>u \<in> set data. other_fields u \<noteq> [])"

text \<open>
  What every state of the loop satisfies: the queue holds records of the input, only
  identifiers of the input are remembered, and, when every record has a field to show, every
  remembered reference denotes an item of the model.
\<close>

definition base_inv :: "tree_record list \<Rightarrow> import_state \<Rightarrow> bool" where
  "base_inv data s \<longleftrightarrow>
     set (queue s) \<subseteq> set data \<and> dom (seen s) \<subseteq> unique_id ` set data \<and>
     (all_have_fields data \<longrightarrow>
        (\<forall>i ref. seen s i = Some ref \<longrightarrow> (\<exists>p. ref = Some p \<and> item_at (root s) p \<noteq> None)))"

text \<open>
  A record is placed when its \<open>unique_id\<close> is remembered with the position of an item that
  shows the record's first field and lies directly under the item remembered for its
  \<open>parent_id\<close>, or directly under the root for \<open>parent_id == 0\<close>.
\<close>

definition placed :: "import_state \<Rightarrow> tree_record \<Rightarrow> bool" where
  "placed s v \<longleftrightarrow>
     (\<exists>p x. seen s (unique_id v) = Some (Some p) \<and> p \<noteq> [] \<and>
        item_at (root s) p = Some x \<and> item_text x = py_str (snd (hd (other_fields v))) \<and>
        (case parent_id v of
           None \<Rightarrow> False
         | Some q \<Rightarrow> if q = 0 then butlast p = [] else seen s q = Some (Some (butlast p))))"

definition loop_inv :: "tree_record list \<Rightarrow> import_state \<Rightarrow> bool" where
  "loop_inv data s \<longleftrightarrow>
     base_inv data s \<and>
     (\<forall>u \<in> set data. u \<in> set (queue s) \<or> unique_id u \<in> dom (seen s)) \<and>
     (distinct (map unique_id data) \<longrightarrow>
        distinct (queue s) \<and> (\<forall>u \<in> set (queue s). unique_id u \<notin> dom (seen s)) \<and>
        (\<forall>v \<in> set data. v \<notin> set (queue s) \<longrightarrow> placed s v))"

text \<open>How many records at the head of the queue still wait for their parent.\<close>

definition waiting :: "import_state \<Rightarrow> nat" where
  "waiting s = length (takeWhile (\<lambda>v. find_parent s v = Requeue) (queue s))"

definition all_rooted :: "tree_record list \<Rightarrow> bool" where
  "all_rooted data \<longleftrightarrow> (\<forall>v \<in> set data. rooted data (parent_id v))"

text \<open>
  The root of the view's model once the header labels are set: it has one column per field
  of the view. The flattened output is \<open>get_children(root, [], 0)\<close> after \<open>import_data\<close>.
\<close>

definition view_root :: "string list \<Rightarrow> item" where
  "view_root expense_fields = Item [] (length (view_fields expense_fields)) []"

definition flattened ::
  "string list \<Rightarrow> tree_record list \<Rightarrow> (py_error + (string \<rightharpoonup> string) list) option" where
  "flattened expense_fields data =
     (case import_data (view_root expense_fields) data of
        None \<Rightarrow> None
      | Some (Inl e) \<Rightarrow> Some (Inl e)
      | Some (Inr t) \<Rightarrow> Some (get_children (view_fields expense_fields) (Some t) 0))"

text \<open>The name and the level a flattened row shows.\<close>

definition name_level :: "(string \<rightharpoonup> string) \<Rightarrow> string option \<times> string option" where
  "name_level r = (r ''Name'', r ''level'')"

text \<open>
  The condition the specification puts on the input: every \<open>parent_id\<close> other than 0 is the
  \<open>unique_id\<close> of some record.
\<close>

definition parents_present :: "tree_record list \<Rightarrow> bool" where
  "parents_present data \<longleftrightarrow>
     (\<forall>v \<in> set data. parent_id v = Some 0 \<or> parent_id v \<in> Some ` unique_id ` set data)"

section \<open>Properties of the repository\<close>



lemma setattrs_ok:
  "length ns \<le> length vs \<Longrightarrow> distinct ns \<Longrightarrow>
   \<exists>obj'. setattrs obj ns vs = Inr obj' \<and>
          (\<forall>i < length ns. obj' (ns ! i) = Some (vs ! i)) \<and>
          (\<forall>n. n \<notin> set ns \<longrightarrow> obj' n = obj n)"
proof (induction obj ns vs rule: setattrs.induct)
  case (1 obj vs)
  then show ?case by simp
next
  case (2 obj n ns)
  then show ?case by simp
next
  case (3 obj n ns v vs)
  from 3 have "length ns \<le> length vs" "distinct ns" by auto
  from "3.IH"[OF this] obtain obj' where o: "setattrs (obj(n \<mapsto> v)) ns vs = Inr obj'"
    "\<forall>i < length ns. obj' (ns ! i) = Some (vs ! i)"
    "\<forall>m. m \<notin> set ns \<longrightarrow> obj' m = (obj(n \<mapsto> v)) m" by blast
  have "\<forall>i < length (n # ns). obj' ((n # ns) ! i) = Some ((v # vs) ! i)"
  proof (intro allI impI)
    fix i assume "i < length (n # ns)"
    then show "obj' ((n # ns) ! i) = Some ((v # vs) ! i)"
      using o 3(3) by (cases i) auto
  qed
  with o show ?case by auto
qed







lemma fold_max_ge: "(a::int) \<le> fold max xs a \<and> (\<forall>x \<in> set xs. x \<le> fold max xs a)"
proof (induction xs arbitrary: a)
  case Nil
  then show ?case by simp
next
  case (Cons x xs)
  from Cons.IH[of "max x a"] show ?case by auto
qed

lemma next_rowid_gt: "r \<in> set rs \<Longrightarrow> rowid r < next_rowid rs"
proof (cases rs)
  case Nil
  then show "r \<in> set rs \<Longrightarrow> ?thesis" by simp
next
  case (Cons a as)
  assume "r \<in> set rs"
  with Cons fold_max_ge[of "rowid a" "map rowid as"] show ?thesis
    by (auto simp: less_le_not_le intro: add_strict_increasing2)
qed

lemma next_rowid_pos: "\<forall>r \<in> set rs. 0 < rowid r \<Longrightarrow> 0 < next_rowid rs"
proof (cases rs)
  case Nil
  then show ?thesis by simp
next
  case (Cons a as)
  assume "\<forall>r \<in> set rs. 0 < rowid r"
  with Cons next_rowid_gt[of a rs] show ?thesis by auto
qed

lemma find_rowid_append:
  "\<forall>r \<in> set rs. rowid r \<noteq> k \<Longrightarrow> rowid x = k \<Longrightarrow> find (\<lambda>r. rowid r = k) (rs @ [x]) = Some x"
  by (induction rs) auto

lemma find_rowid_none: "find (\<lambda>r. rowid r = k) rs = None \<longleftrightarrow> (\<forall>r \<in> set rs. rowid r \<noteq> k)"
  by (induction rs) auto

lemma find_rowid_some:
  "find (\<lambda>r. rowid r = k) rs = Some x \<Longrightarrow> x \<in> set rs \<and> rowid x = k"
  by (induction rs) (auto split: if_splits)

lemma row_object:
  assumes "distinct (field_names repo)" "''pk'' \<notin> set (field_names repo)"
    and "length (cells x) = length (field_names repo)"
  shows "\<exists>g. setattrs (cls_new (cls repo)) (row_names repo) (select_tuple x) = Inr g \<and>
             (\<forall>i < length (field_names repo). g (field_names repo ! i) = Some (cells x ! i)) \<and>
             g ''pk'' = Some (PyInt (rowid x)) \<and>
             (\<forall>n. n \<notin> set (row_names repo) \<longrightarrow> g n = cls_new (cls repo) n)"
proof -
  let ?ns = "row_names repo" and ?vs = "select_tuple x"
  have d: "distinct ?ns" "length ?ns \<le> length ?vs"
    using assms by (auto simp: row_names_def select_tuple_def)
  from setattrs_ok[OF d(2) d(1), of "cls_new (cls repo)"] obtain g where
    g: "setattrs (cls_new (cls repo)) ?ns ?vs = Inr g"
       "\<forall>i < length ?ns. g (?ns ! i) = Some (?vs ! i)"
       "\<forall>n. n \<notin> set ?ns \<longrightarrow> g n = cls_new (cls repo) n" by blast
  have "\<forall>i < length (field_names repo). g (field_names repo ! i) = Some (cells x ! i)"
  proof (intro allI impI)
    fix i assume i: "i < length (field_names repo)"
    then have "i < length ?ns" by (simp add: row_names_def)
    with g(2) have "g (?ns ! i) = Some (?vs ! i)" by blast
    with i assms(3) show "g (field_names repo ! i) = Some (cells x ! i)"
      by (simp add: row_names_def select_tuple_def nth_append)
  qed
  moreover have "g ''pk'' = Some (PyInt (rowid x))"
  proof -
    have "length (field_names repo) < length ?ns" by (simp add: row_names_def)
    with g(2) have "g (?ns ! length (field_names repo)) = Some (?vs ! length (field_names repo))"
      by blast
    with assms(3) show ?thesis by (simp add: row_names_def select_tuple_def nth_append)
  qed
  ultimately show ?thesis using g(1) g(3) by blast
qed


lemma store_cells_length:
  "store_cells ds vs = Inr cs \<Longrightarrow> length cs = min (length ds) (length vs)"
proof (induction ds vs arbitrary: cs rule: store_cells.induct)
  case (1 d ds v vs)
  then show ?case by (auto split: sum.splits)
qed auto

lemma getattrs_length: "getattrs obj ns = Inr vs \<Longrightarrow> length vs = length ns"
  by (induction ns arbitrary: vs) (auto split: option.splits sum.splits)

lemma add_result:
  assumes "add repo r db = (Inr k, r', db')"
  shows "\<exists>t cs. db (table_name repo) = Some t \<and> k = next_rowid (rows t) \<and>
           r' = r(''pk'' \<mapsto> PyInt k) \<and> length cs = length (field_names repo) \<and>
           db' = db(table_name repo \<mapsto> t\<lparr>rows := rows t @ [\<lparr>cells = cs, rowid = k\<rparr>]\<rparr>)"
proof -
  from assms obtain vals where vals: "getattrs r (field_names repo) = Inr vals"
    by (auto simp: add_def split: if_splits sum.splits)
  with assms obtain t cs where t: "db (table_name repo) = Some t"
    and cs: "store_cells (field_decls repo) vals = Inr cs"
    and res: "k = next_rowid (rows t)" "r' = r(''pk'' \<mapsto> PyInt k)"
      "db' = db(table_name repo \<mapsto> t\<lparr>rows := rows t @ [\<lparr>cells = cs, rowid = k\<rparr>]\<rparr>)"
    by (auto simp: add_def sql_insert_def Let_def split: if_splits sum.splits option.splits)
  have "length cs = length (field_names repo)"
    using store_cells_length[OF cs] getattrs_length[OF vals]
    by (simp add: field_decls_def field_names_def)
  with t res show ?thesis by blast
qed


lemma get_appended:
  assumes inv: "repo_inv repo db" and t: "db (table_name repo) = Some t"
    and len: "length cs = length (field_names repo)"
    and db': "db' = db(table_name repo \<mapsto>
                 t\<lparr>rows := rows t @ [\<lparr>cells = cs, rowid = next_rowid (rows t)\<rparr>]\<rparr>)"
  shows "\<exists>g. get repo (next_rowid (rows t)) db' = Inr (Some g) \<and>
           (\<forall>i < length (field_names repo). g (field_names repo ! i) = Some (cs ! i)) \<and>
           g ''pk'' = Some (PyInt (next_rowid (rows t))) \<and>
           setattrs (cls_new (cls repo)) (row_names repo)
             (select_tuple \<lparr>cells = cs, rowid = next_rowid (rows t)\<rparr>) = Inr g"
proof -
  let ?k = "next_rowid (rows t)"
  let ?x = "\<lparr>cells = cs, rowid = ?k\<rparr>"
  have "\<forall>r \<in> set (rows t). rowid r \<noteq> ?k" using next_rowid_gt by fastforce
  then have f: "find (\<lambda>r. rowid r = ?k) (rows t @ [?x]) = Some ?x"
    by (intro find_rowid_append) auto
  from inv have d: "distinct (field_names repo)" "''pk'' \<notin> set (field_names repo)"
    by (auto simp: repo_inv_def)
  from row_object[OF d, of ?x] len obtain g where
    g: "setattrs (cls_new (cls repo)) (row_names repo) (select_tuple ?x) = Inr g"
       "\<forall>i < length (field_names repo). g (field_names repo ! i) = Some (cs ! i)"
       "g ''pk'' = Some (PyInt ?k)" by auto
  have "get repo ?k db' = Inr (Some g)"
    using f g(1) by (simp add: get_def sql_select_pk_def db')
  with g show ?thesis by blast
qed




lemma init_result:
  assumes "''pk'' \<in> set (map fst (annotations c))"
  shows "init_repository c db =
           Inr (\<lparr>cls = c, table_name = cls_name c,
                 fields' = filter (\<lambda>kv. fst kv \<noteq> ''pk'') (annotations c)\<rparr>,
                db(cls_name c \<mapsto>
                  \<lparr>columns = column_defs (filter (\<lambda>kv. fst kv \<noteq> ''pk'') (annotations c)),
                   rows = []\<rparr>))"
  using assms by (simp add: init_repository_def dict_pop_def Let_def)

lemma init_no_pk:
  "''pk'' \<notin> set (map fst (annotations c)) \<Longrightarrow> init_repository c db = Inl KeyError"
  by (simp add: init_repository_def dict_pop_def)


lemma init_inv:
  assumes "distinct (map fst (annotations c))" "init_repository c db = Inr (repo, db')"
  shows "repo_inv repo db'"
proof -
  from assms(2) have pk: "''pk'' \<in> set (map fst (annotations c))"
    by (auto simp: init_repository_def dict_pop_def split: if_splits)
  have "distinct (map fst (filter (\<lambda>kv. fst kv \<noteq> ''pk'') (annotations c)))"
    using assms(1) by (simp add: distinct_map_filter)
  then show ?thesis
    using assms(2) unfolding init_result[OF pk]
    by (auto simp: repo_inv_def field_names_def)
qed

lemma add_inv:
  assumes "repo_inv repo db" "add repo r db = (res, r', db')"
  shows "repo_inv repo db'"
proof (cases res)
  case (Inl e)
  with assms(2) have "db' = db"
    by (auto simp: add_def split: if_splits sum.splits)
  with assms(1) show ?thesis by simp
next
  case (Inr k)
  with assms(2) add_result[of repo r db k r' db'] obtain t cs where
    t: "db (table_name repo) = Some t" and k: "k = next_rowid (rows t)"
    and len: "length cs = length (field_names repo)"
    and db': "db' = db(table_name repo \<mapsto> t\<lparr>rows := rows t @ [\<lparr>cells = cs, rowid = k\<rparr>]\<rparr>)"
    by auto
  from assms(1) t have s: "sorted_wrt (<) (map rowid (rows t))"
    and p: "\<forall>x \<in> set (rows t). 0 < rowid x \<and> length (cells x) = length (field_names repo)"
    by (auto simp: repo_inv_def)
  have "sorted_wrt (<) (map rowid (rows t) @ [k])"
    using s next_rowid_gt[of _ "rows t"] by (auto simp: sorted_wrt_append k)
  moreover have "0 < k" using p next_rowid_pos[of "rows t"] by (simp add: k)
  ultimately show ?thesis
    using assms(1) p len by (auto simp: repo_inv_def db')
qed

lemma sorted_rowid_filter:
  "sorted_wrt (<) (map rowid xs) \<Longrightarrow> sorted_wrt (<) (map rowid (filter P xs))"
  by (induction xs) auto

lemma delete_inv:
  assumes "repo_inv repo db" "delete repo k db = (res, db')"
  shows "repo_inv repo db'"
proof -
  from assms(1) obtain t where t: "db (table_name repo) = Some t"
    by (auto simp: repo_inv_def split: option.splits)
  have "db' = db \<or> db' = db(table_name repo \<mapsto> t\<lparr>rows := filter (\<lambda>r. rowid r \<noteq> k) (rows t)\<rparr>)"
    using assms(2) t
    by (auto simp: delete_def sql_delete_def split: sum.splits option.splits)
  then show ?thesis
  proof
    assume "db' = db" with assms(1) show ?thesis by simp
  next
    assume "db' = db(table_name repo \<mapsto> t\<lparr>rows := filter (\<lambda>r. rowid r \<noteq> k) (rows t)\<rparr>)"
    then show ?thesis
      using assms(1) t by (auto simp: repo_inv_def sorted_rowid_filter)
  qed
qed

lemma update_inv:
  assumes "repo_inv repo db" "update repo r db = (res, db')"
  shows "repo_inv repo db'"
proof (cases res)
  case (Inl e)
  with assms(2) have "db' = db"
    by (auto simp: update_def split: if_splits sum.splits option.splits)
  with assms(1) show ?thesis by simp
next
  case (Inr u)
  with assms(2) obtain vals key where vals: "getattrs r (field_names repo) = Inr vals"
    and upd: "sql_update (table_name repo) (field_names repo) (field_decls repo)
                (map py_str vals) key db = Inr db'"
    by (auto simp: update_def split: if_splits sum.splits option.splits)
  from assms(1) obtain t where t: "db (table_name repo) = Some t"
    by (auto simp: repo_inv_def split: option.splits)
  from upd t have "db' = db \<or> (\<exists>k cs. store_cells (field_decls repo) (map PyStr (map py_str vals)) = Inr cs
      \<and> db' = db(table_name repo \<mapsto> t\<lparr>rows := map (\<lambda>r. if rowid r = k then r\<lparr>cells := cs\<rparr> else r) (rows t)\<rparr>))"
    by (auto simp: sql_update_def split: if_splits sum.splits pyval.splits)
  then show ?thesis
  proof
    assume "db' = db" with assms(1) show ?thesis by simp
  next
    assume "\<exists>k cs. store_cells (field_decls repo) (map PyStr (map py_str vals)) = Inr cs
      \<and> db' = db(table_name repo \<mapsto> t\<lparr>rows := map (\<lambda>r. if rowid r = k then r\<lparr>cells := cs\<rparr> else r) (rows t)\<rparr>)"
    then obtain k cs where cs: "store_cells (field_decls repo) (map PyStr (map py_str vals)) = Inr cs"
      and db': "db' = db(table_name repo \<mapsto> t\<lparr>rows := map (\<lambda>r. if rowid r = k then r\<lparr>cells := cs\<rparr> else r) (rows t)\<rparr>)"
      by blast
    have len: "length cs = length (field_names repo)"
      using store_cells_length[OF cs] getattrs_length[OF vals]
      by (simp add: field_decls_def field_names_def)
    have m: "map (rowid \<circ> (\<lambda>r. if rowid r = k then r\<lparr>cells := cs\<rparr> else r)) (rows t) = map rowid (rows t)"
      by (rule map_cong) auto
    have s': "sorted_wrt (<) (map (rowid \<circ> (\<lambda>r. if rowid r = k then r\<lparr>cells := cs\<rparr> else r)) (rows t))"
      unfolding m using assms(1) t by (auto simp: repo_inv_def)
    show ?thesis
      using assms(1) t len s' by (auto simp: repo_inv_def db')
  qed
qed


lemma type_check_str: "type_check ''<class 'str'>'' = ''TEXT''"
  by (simp add: type_check_def py_find_def)

lemma type_check_optional_int: "type_check ''int | None'' = ''INTEGER''"
  by (simp add: type_check_def py_find_def)

lemma type_check_int: "type_check ''<class 'int'>'' = ''INTEGER''"
  by (simp add: type_check_def py_find_def)

lemma sorted_rowid_distinct: "sorted_wrt (<) (map rowid rs) \<Longrightarrow> distinct (map rowid rs)"
  using strict_sorted_iff by blast

lemma filter_out_row:
  assumes "distinct (map rowid rs)" "x \<in> set rs"
  shows "\<exists>xs ys. rs = xs @ x # ys \<and> filter (\<lambda>r. rowid r \<noteq> rowid x) rs = xs @ ys \<and>
           (\<forall>r \<in> set (xs @ ys). rowid r \<noteq> rowid x)"
proof -
  from assms(2) obtain xs ys where s: "rs = xs @ x # ys" by (auto dest: split_list)
  from assms(1) have nx: "rowid x \<notin> rowid ` set xs" and ny: "rowid x \<notin> rowid ` set ys"
    unfolding s by auto
  have n: "\<forall>r \<in> set (xs @ ys). rowid r \<noteq> rowid x"
  proof
    fix r assume "r \<in> set (xs @ ys)"
    then have "rowid r \<in> rowid ` set xs \<or> rowid r \<in> rowid ` set ys" by auto
    with nx ny show "rowid r \<noteq> rowid x" by metis
  qed
  then have "filter (\<lambda>r. rowid r \<noteq> rowid x) (xs @ ys) = xs @ ys"
    by (simp only: filter_id_conv)
  then have "filter (\<lambda>r. rowid r \<noteq> rowid x) rs = xs @ ys"
    unfolding s by simp
  with s n show ?thesis by blast
qed

lemma get_absent:
  "db (table_name repo) = Some t \<Longrightarrow> \<forall>x \<in> set (rows t). rowid x \<noteq> k \<Longrightarrow>
   get repo k db = Inr None"
  by (simp add: get_def sql_select_pk_def find_rowid_none[THEN iffD2])

lemma get_present:
  assumes "repo_inv repo db" "db (table_name repo) = Some t" "x \<in> set (rows t)"
  shows "\<exists>g. get repo (rowid x) db = Inr (Some g)"
proof -
  from assms have d: "distinct (field_names repo)" "''pk'' \<notin> set (field_names repo)"
    and len: "\<forall>r \<in> set (rows t). length (cells r) = length (field_names repo)"
    by (auto simp: repo_inv_def)
  from assms(3) obtain y where y: "find (\<lambda>r. rowid r = rowid x) (rows t) = Some y"
    by (cases "find (\<lambda>r. rowid r = rowid x) (rows t)") (auto simp: find_rowid_none)
  then have "y \<in> set (rows t)" by (auto dest: find_rowid_some)
  with len have "length (cells y) = length (field_names repo)" by blast
  from row_object[OF d this] obtain g where
    "setattrs (cls_new (cls repo)) (row_names repo) (select_tuple y) = Inr g" by blast
  with y assms(2) show ?thesis by (simp add: get_def sql_select_pk_def)
qed

lemma delete_missing:
  assumes "db (table_name repo) = Some t" "\<forall>x \<in> set (rows t). rowid x \<noteq> k"
  shows "delete repo k db = (Inl KeyError, db)"
proof -
  from assms have "get repo k db = Inr None" by (rule get_absent)
  then show ?thesis by (simp add: delete_def)
qed

lemma delete_present:
  assumes inv: "repo_inv repo db" and t: "db (table_name repo) = Some t"
    and x: "x \<in> set (rows t)"
  shows "\<exists>xs ys. rows t = xs @ x # ys \<and>
           delete repo (rowid x) db = (Inr (), db(table_name repo \<mapsto> t\<lparr>rows := xs @ ys\<rparr>)) \<and>
           get repo (rowid x) (db(table_name repo \<mapsto> t\<lparr>rows := xs @ ys\<rparr>)) = Inr None"
proof -
  from inv t have "distinct (map rowid (rows t))"
    by (auto simp: repo_inv_def intro: sorted_rowid_distinct)
  from filter_out_row[OF this x] obtain xs ys where
    s: "rows t = xs @ x # ys" "filter (\<lambda>r. rowid r \<noteq> rowid x) (rows t) = xs @ ys"
       "\<forall>r \<in> set (xs @ ys). rowid r \<noteq> rowid x" by blast
  let ?db' = "db(table_name repo \<mapsto> t\<lparr>rows := xs @ ys\<rparr>)"
  from get_present[OF inv t x] obtain g where "get repo (rowid x) db = Inr (Some g)" by blast
  then have d: "delete repo (rowid x) db = (Inr (), ?db')"
    using t s(2) by (simp add: delete_def sql_delete_def)
  have "?db' (table_name repo) = Some (t\<lparr>rows := xs @ ys\<rparr>)" by simp
  moreover have "\<forall>r \<in> set (rows (t\<lparr>rows := xs @ ys\<rparr>)). rowid r \<noteq> rowid x"
    using s(3) by simp
  ultimately have "get repo (rowid x) ?db' = Inr None" by (rule get_absent)
  with s(1) d show ?thesis by blast
qed

lemma add_then_delete:
  assumes inv: "repo_inv repo db" and t: "db (table_name repo) = Some t"
    and a: "add repo r db = (Inr j, r', db1)"
  shows "delete repo j db1 = (Inr (), db) \<and> get repo j db = Inr None"
proof -
  from add_result[OF a] t obtain cs where j: "j = next_rowid (rows t)"
    and len: "length cs = length (field_names repo)"
    and db1: "db1 = db(table_name repo \<mapsto> t\<lparr>rows := rows t @ [\<lparr>cells = cs, rowid = j\<rparr>]\<rparr>)"
    by auto
  have fresh: "\<forall>x \<in> set (rows t). rowid x \<noteq> j"
  proof
    fix x assume "x \<in> set (rows t)"
    then have "rowid x < next_rowid (rows t)" by (rule next_rowid_gt)
    then show "rowid x \<noteq> j" by (simp add: j)
  qed
  have db1': "db1 = db(table_name repo \<mapsto>
       t\<lparr>rows := rows t @ [\<lparr>cells = cs, rowid = next_rowid (rows t)\<rparr>]\<rparr>)"
    using db1 j by simp
  from get_appended[OF inv t len db1'] obtain g where
    "get repo j db1 = Inr (Some g)" unfolding j by blast
  moreover have "filter (\<lambda>r. rowid r \<noteq> j) (rows t @ [\<lparr>cells = cs, rowid = j\<rparr>]) = rows t"
    using fresh by (simp add: filter_id_conv)
  moreover have "db(table_name repo \<mapsto> t) = db" using t by (rule map_upd_triv)
  ultimately have "delete repo j db1 = (Inr (), db)"
    by (simp add: delete_def sql_delete_def db1)
  moreover from t fresh have "get repo j db = Inr None" by (rule get_absent)
  ultimately show ?thesis by blast
qed


lemma build_objs_iff:
  "build_objs repo ts = Inr objs \<longleftrightarrow>
   list_all2 (\<lambda>t obj. setattrs (cls_new (cls repo)) (row_names repo) t = Inr obj) ts objs"
proof (induction ts arbitrary: objs)
  case Nil
  then show ?case by auto
next
  case (Cons t ts)
  show ?case
  proof (cases "setattrs (cls_new (cls repo)) (row_names repo) t")
    case (Inl e)
    then show ?thesis by (auto simp: list_all2_Cons1)
  next
    case (Inr obj)
    then show ?thesis
      using Cons.IH by (cases "build_objs repo ts") (auto simp: list_all2_Cons1)
  qed
qed

lemma row_object_defined:
  assumes "distinct (field_names repo)" "''pk'' \<notin> set (field_names repo)"
    and "length (cells x) = length (field_names repo)"
  shows "\<exists>g. setattrs (cls_new (cls repo)) (row_names repo) (select_tuple x) = Inr g \<and>
             (\<forall>n \<in> set (row_names repo). g n \<noteq> None) \<and>
             (\<forall>n. n \<notin> set (row_names repo) \<longrightarrow> g n = cls_new (cls repo) n)"
proof -
  from row_object[OF assms] obtain g where
    g: "setattrs (cls_new (cls repo)) (row_names repo) (select_tuple x) = Inr g"
       "\<forall>i < length (field_names repo). g (field_names repo ! i) = Some (cells x ! i)"
       "g ''pk'' = Some (PyInt (rowid x))"
       "\<forall>n. n \<notin> set (row_names repo) \<longrightarrow> g n = cls_new (cls repo) n"
    by blast
  have "\<forall>n \<in> set (row_names repo). g n \<noteq> None"
  proof
    fix n assume "n \<in> set (row_names repo)"
    then consider "n = ''pk''" | "n \<in> set (field_names repo)" by (auto simp: row_names_def)
    then show "g n \<noteq> None"
    proof cases
      case 1
      with g(3) show ?thesis by simp
    next
      case 2
      then obtain i where "i < length (field_names repo)" "field_names repo ! i = n"
        by (auto simp: in_set_conv_nth)
      with g(2) show ?thesis by auto
    qed
  qed
  with g(1,4) show ?thesis by blast
qed

lemma rows_objects:
  assumes d: "distinct (field_names repo)" "''pk'' \<notin> set (field_names repo)"
  shows "\<forall>r \<in> set rs. length (cells r) = length (field_names repo) \<Longrightarrow>
         \<exists>objs. build_objs repo (map select_tuple rs) = Inr objs \<and>
           (\<forall>obj \<in> set objs. \<forall>n \<in> set (row_names repo). obj n \<noteq> None) \<and>
           (\<forall>obj \<in> set objs. \<forall>n. n \<notin> set (row_names repo) \<longrightarrow> obj n = cls_new (cls repo) n)"
proof (induction rs)
  case Nil
  then show ?case by simp
next
  case (Cons x xs)
  then obtain objs where
    o: "build_objs repo (map select_tuple xs) = Inr objs"
       "\<forall>obj \<in> set objs. \<forall>n \<in> set (row_names repo). obj n \<noteq> None"
       "\<forall>obj \<in> set objs. \<forall>n. n \<notin> set (row_names repo) \<longrightarrow> obj n = cls_new (cls repo) n"
    by auto
  from Cons.prems have "length (cells x) = length (field_names repo)" by simp
  from row_object_defined[OF d this] obtain g where
    g: "setattrs (cls_new (cls repo)) (row_names repo) (select_tuple x) = Inr g"
       "\<forall>n \<in> set (row_names repo). g n \<noteq> None"
       "\<forall>n. n \<notin> set (row_names repo) \<longrightarrow> g n = cls_new (cls repo) n"
    by blast
  have 1: "build_objs repo (map select_tuple (x # xs)) = Inr (g # objs)"
    using o(1) g(1) by simp
  have 2: "\<forall>obj \<in> set (g # objs). \<forall>n \<in> set (row_names repo). obj n \<noteq> None"
    using o(2) g(2) by simp
  have 3: "\<forall>obj \<in> set (g # objs). \<forall>n. n \<notin> set (row_names repo) \<longrightarrow> obj n = cls_new (cls repo) n"
    using o(3) g(3) by simp
  from 1 2 3 show ?case by blast
qed

lemma inv_objects:
  assumes "repo_inv repo db" "db (table_name repo) = Some t"
  shows "\<exists>objs. build_objs repo (map select_tuple (rows t)) = Inr objs \<and>
           (\<forall>obj \<in> set objs. \<forall>n \<in> set (row_names repo). obj n \<noteq> None) \<and>
           (\<forall>obj \<in> set objs. \<forall>n. n \<notin> set (row_names repo) \<longrightarrow> obj n = cls_new (cls repo) n)"
proof -
  from assms have d: "distinct (field_names repo)" "''pk'' \<notin> set (field_names repo)"
    and len: "\<forall>r \<in> set (rows t). length (cells r) = length (field_names repo)"
    by (auto simp: repo_inv_def)
  from rows_objects[OF d len] show ?thesis .
qed




lemma matches_unknown:
  assumes "\<forall>b \<in> set (map fst w1). obj b \<noteq> None" "obj a = None"
  shows "matches obj (w1 @ (a, v) # w2) =
           (if \<forall>(b, x) \<in> set w1. obj b = Some x then Inl AttributeError else Inr False)"
  using assms by (induction w1) auto

lemma filter_objs_unknown:
  assumes "\<forall>obj \<in> set objs. (\<forall>b \<in> set (map fst w1). obj b \<noteq> None) \<and> obj a = None"
  shows "filter_objs objs (w1 @ (a, v) # w2) =
           (if \<exists>obj \<in> set objs. \<forall>(b, x) \<in> set w1. obj b = Some x
            then Inl AttributeError else Inr [])"
  using assms
proof (induction objs)
  case Nil
  then show ?case by simp
next
  case (Cons obj objs)
  then have m: "matches obj (w1 @ (a, v) # w2) =
           (if \<forall>(b, x) \<in> set w1. obj b = Some x then Inl AttributeError else Inr False)"
    by (intro matches_unknown) auto
  from Cons have "filter_objs objs (w1 @ (a, v) # w2) =
           (if \<exists>obj \<in> set objs. \<forall>(b, x) \<in> set w1. obj b = Some x
            then Inl AttributeError else Inr [])" by simp
  with m show ?case by auto
qed

text \<open>
  What \<open>update\<close> does keep: when it returns, only the rows whose \<open>pk\<close> is the record's are
  touched, no row is added, removed or moved, and nothing changes when no row has that \<open>pk\<close>.
\<close>

lemma update_frame:
  assumes u: "update repo r db = (Inr (), db')" and t: "db (table_name repo) = Some t"
  shows "\<exists>t'. db' = db(table_name repo \<mapsto> t') \<and> columns t' = columns t \<and>
           length (rows t') = length (rows t) \<and>
           (\<forall>i < length (rows t). rowid (rows t' ! i) = rowid (rows t ! i) \<and>
              (r ''pk'' \<noteq> Some (PyInt (rowid (rows t ! i))) \<longrightarrow> rows t' ! i = rows t ! i)) \<and>
           ((\<forall>x \<in> set (rows t). r ''pk'' \<noteq> Some (PyInt (rowid x))) \<longrightarrow> db' = db)"
proof -
  from u obtain key vals where key: "r ''pk'' = Some key"
    and upd: "sql_update (table_name repo) (field_names repo) (field_decls repo)
                (map py_str vals) key db = Inr db'"
    by (auto simp: update_def split: if_splits sum.splits option.splits)
  from upd obtain k where k: "key = PyInt k"
    by (cases key) (auto simp: sql_update_def split: if_splits)
  show ?thesis
  proof (cases "list_ex (\<lambda>x. rowid x = k) (rows t)")
    case False
    with upd t k have "db' = db" by (auto simp: sql_update_def split: if_splits)
    moreover have "db = db(table_name repo \<mapsto> t)" using t by (simp add: map_upd_triv)
    ultimately show ?thesis by (intro exI[of _ t]) auto
  next
    case True
    with upd t k obtain cs where
      db': "db' = db(table_name repo \<mapsto>
               t\<lparr>rows := map (\<lambda>x. if rowid x = k then x\<lparr>cells := cs\<rparr> else x) (rows t)\<rparr>)"
      by (auto simp: sql_update_def split: if_splits sum.splits)
    let ?t' = "t\<lparr>rows := map (\<lambda>x. if rowid x = k then x\<lparr>cells := cs\<rparr> else x) (rows t)\<rparr>"
    have 1: "\<forall>i < length (rows t). rowid (rows ?t' ! i) = rowid (rows t ! i) \<and>
              (r ''pk'' \<noteq> Some (PyInt (rowid (rows t ! i))) \<longrightarrow> rows ?t' ! i = rows t ! i)"
      using key k by simp
    have 2: "(\<forall>x \<in> set (rows t). r ''pk'' \<noteq> Some (PyInt (rowid x))) \<longrightarrow> db' = db"
      using True key k by (auto simp: list_ex_iff)
    from db' 1 2 show ?thesis by (intro exI[of _ ?t']) simp
  qed
qed

section \<open>The claims about the repository\<close>







text \<open>
  Claim C4. For every record \<open>r\<close>, \<open>add(r)\<close> raises \<open>ValueError\<close> (the invalid-state error)
  whenever \<open>r.pk != 0\<close> and leaves the record and the table as they were; \<open>update(r)\<close>
  raises \<open>ValueError\<close> whenever \<open>r.pk == 0\<close>, and the table stays as it was.
\<close>

theorem add_update_invalid_state:
  "(r ''pk'' \<noteq> Some (PyInt 0) \<longrightarrow> add repo r db = (Inl ValueError, r, db)) \<and>
   (r ''pk'' = Some (PyInt 0) \<longrightarrow> update repo r db = (Inl ValueError, db))"
  by (simp add: add_def update_def)

theorem add_update_invalid_state_witness:
  "[''pk'' \<mapsto> PyInt 1, ''comment'' \<mapsto> PyStr []] ''pk'' \<noteq> Some (PyInt 0) \<and>
   add test_repo [''pk'' \<mapsto> PyInt 1, ''comment'' \<mapsto> PyStr []] (test_db []) =
     (Inl ValueError, [''pk'' \<mapsto> PyInt 1, ''comment'' \<mapsto> PyStr []], test_db []) \<and>
   [''pk'' \<mapsto> PyInt 0, ''comment'' \<mapsto> PyStr []] ''pk'' = Some (PyInt 0) \<and>
   update test_repo [''pk'' \<mapsto> PyInt 0, ''comment'' \<mapsto> PyStr []] (test_db []) =
     (Inl ValueError, test_db [])"
  using add_update_invalid_state[of "[''pk'' \<mapsto> PyInt 1, ''comment'' \<mapsto> PyStr []]" test_repo "test_db []"]
    add_update_invalid_state[of "[''pk'' \<mapsto> PyInt 0, ''comment'' \<mapsto> PyStr []]" test_repo "test_db []"]
  by simp





text \<open>
  Claim C5. In a well-formed state, \<open>delete(pk)\<close> raises \<open>KeyError\<close> (the not-found error)
  and leaves the table as it was when no row has that \<open>pk\<close>; when a row has it, \<open>delete\<close>
  removes exactly that row and keeps the others in place, and \<open>get(pk)\<close> then returns
  nothing. In particular, after \<open>add(r)\<close> followed by \<open>delete(r.pk)\<close> the table is as it
  was before the \<open>add\<close> and \<open>get(r.pk)\<close> returns nothing.
\<close>

theorem delete_spec:
  assumes "repo_inv repo db" and "db (table_name repo) = Some t"
  shows "((\<forall>x \<in> set (rows t). rowid x \<noteq> k) \<longrightarrow> delete repo k db = (Inl KeyError, db)) \<and>
         (\<forall>x \<in> set (rows t). rowid x = k \<longrightarrow>
            (\<exists>xs ys. rows t = xs @ x # ys \<and>
               delete repo k db = (Inr (), db(table_name repo \<mapsto> t\<lparr>rows := xs @ ys\<rparr>)) \<and>
               get repo k (db(table_name repo \<mapsto> t\<lparr>rows := xs @ ys\<rparr>)) = Inr None)) \<and>
         (\<forall>r j r' db1. add repo r db = (Inr j, r', db1) \<longrightarrow>
            delete repo j db1 = (Inr (), db) \<and> get repo j db = Inr None)"
proof (intro conjI impI allI ballI)
  assume "\<forall>x \<in> set (rows t). rowid x \<noteq> k"
  with assms(2) show "delete repo k db = (Inl KeyError, db)" by (rule delete_missing)
next
  fix x assume "x \<in> set (rows t)" "rowid x = k"
  with delete_present[OF assms, of x]
  show "\<exists>xs ys. rows t = xs @ x # ys \<and>
       delete repo k db = (Inr (), db(table_name repo \<mapsto> t\<lparr>rows := xs @ ys\<rparr>)) \<and>
       get repo k (db(table_name repo \<mapsto> t\<lparr>rows := xs @ ys\<rparr>)) = Inr None"
    by blast
next
  fix r j r' db1
  assume "add repo r db = (Inr j, r', db1)"
  with assms show "delete repo j db1 = (Inr (), db)" by (blast dest: add_then_delete)
next
  fix r j r' db1
  assume "add repo r db = (Inr j, r', db1)"
  with assms show "get repo j db = Inr None" by (blast dest: add_then_delete)
qed

theorem delete_spec_witness:
  "repo_inv test_repo (test_db [\<lparr>cells = [PyStr ''a''], rowid = 1\<rparr>]) \<and>
   test_db [\<lparr>cells = [PyStr ''a''], rowid = 1\<rparr>] (table_name test_repo) =
     Some \<lparr>columns = [''comment TEXT'', ''pk INTEGER PRIMARY KEY''],
           rows = [\<lparr>cells = [PyStr ''a''], rowid = 1\<rparr>]\<rparr> \<and>
   delete test_repo 7 (test_db [\<lparr>cells = [PyStr ''a''], rowid = 1\<rparr>]) = (Inl KeyError, test_db [\<lparr>cells = [PyStr ''a''], rowid = 1\<rparr>]) \<and>
   delete test_repo 1 (test_db [\<lparr>cells = [PyStr ''a''], rowid = 1\<rparr>]) = (Inr (), test_db []) \<and>
   get test_repo 1 (test_db []) = Inr None \<and>
   add test_repo [''comment'' \<mapsto> PyStr ''b'', ''pk'' \<mapsto> PyInt 0] (test_db [\<lparr>cells = [PyStr ''a''], rowid = 1\<rparr>]) =
     (Inr 2, [''comment'' \<mapsto> PyStr ''b'', ''pk'' \<mapsto> PyInt 2], test_db [\<lparr>cells = [PyStr ''a''], rowid = 1\<rparr>, \<lparr>cells = [PyStr ''b''], rowid = 2\<rparr>]) \<and>
   delete test_repo 2 (test_db [\<lparr>cells = [PyStr ''a''], rowid = 1\<rparr>, \<lparr>cells = [PyStr ''b''], rowid = 2\<rparr>]) = (Inr (), test_db [\<lparr>cells = [PyStr ''a''], rowid = 1\<rparr>]) \<and>
   get test_repo 2 (test_db [\<lparr>cells = [PyStr ''a''], rowid = 1\<rparr>]) = Inr None"
proof -
  let ?t = "\<lparr>columns = [''comment TEXT'', ''pk INTEGER PRIMARY KEY''],
             rows = [\<lparr>cells = [PyStr ''a''], rowid = 1\<rparr>]\<rparr>"
  have h1: "repo_inv test_repo (test_db [\<lparr>cells = [PyStr ''a''], rowid = 1\<rparr>])"
    by (simp add: repo_inv_def test_repo_def test_db_def field_names_def)
  have h2: "test_db [\<lparr>cells = [PyStr ''a''], rowid = 1\<rparr>] (table_name test_repo) = Some ?t"
    by (simp add: test_repo_def test_db_def)
  note d = delete_spec[OF h1 h2]
  from d[of 7] have a: "delete test_repo 7 (test_db [\<lparr>cells = [PyStr ''a''], rowid = 1\<rparr>]) = (Inl KeyError, test_db [\<lparr>cells = [PyStr ''a''], rowid = 1\<rparr>])"
    by simp
  from d[of 1] obtain xs ys where
    s: "rows ?t = xs @ \<lparr>cells = [PyStr ''a''], rowid = 1\<rparr> # ys"
    and b: "delete test_repo 1 (test_db [\<lparr>cells = [PyStr ''a''], rowid = 1\<rparr>]) =
              (Inr (), (test_db [\<lparr>cells = [PyStr ''a''], rowid = 1\<rparr>])(table_name test_repo \<mapsto> ?t\<lparr>rows := xs @ ys\<rparr>))"
    and c: "get test_repo 1 ((test_db [\<lparr>cells = [PyStr ''a''], rowid = 1\<rparr>])(table_name test_repo \<mapsto> ?t\<lparr>rows := xs @ ys\<rparr>))
              = Inr None"
    by auto
  from s have "xs = [] \<and> ys = []" by (cases xs) auto
  then have e: "(test_db [\<lparr>cells = [PyStr ''a''], rowid = 1\<rparr>])(table_name test_repo \<mapsto> ?t\<lparr>rows := xs @ ys\<rparr>) = test_db []"
    by (simp add: test_db_def test_repo_def)
  have f: "add test_repo [''comment'' \<mapsto> PyStr ''b'', ''pk'' \<mapsto> PyInt 0] (test_db [\<lparr>cells = [PyStr ''a''], rowid = 1\<rparr>]) =
     (Inr 2, [''comment'' \<mapsto> PyStr ''b'', ''pk'' \<mapsto> PyInt 2], test_db [\<lparr>cells = [PyStr ''a''], rowid = 1\<rparr>, \<lparr>cells = [PyStr ''b''], rowid = 2\<rparr>])"
    by (simp add: add_def sql_insert_def test_repo_def test_db_def field_names_def field_decls_def
        type_check_str affinity_def)
  from d[of 0] f have g: "delete test_repo 2 (test_db [\<lparr>cells = [PyStr ''a''], rowid = 1\<rparr>, \<lparr>cells = [PyStr ''b''], rowid = 2\<rparr>]) = (Inr (), test_db [\<lparr>cells = [PyStr ''a''], rowid = 1\<rparr>])
      \<and> get test_repo 2 (test_db [\<lparr>cells = [PyStr ''a''], rowid = 1\<rparr>]) = Inr None"
    by blast
  from h1 h2 a b c e f g show ?thesis by simp
qed

text \<open>
  Claim C6 fails on the code. \<open>update\<close> pastes \<open>str\<close> of every field value into the statement
  as a quoted text, where \<open>add\<close> binds the values: a field that holds \<open>None\<close> is stored as
  the four-letter text \<open>None\<close>, not as the record's value, and \<open>get\<close> returns that text.
\<close>

theorem update_none_becomes_text:
  "update category_repo [''name'' \<mapsto> PyStr ''books'', ''parent'' \<mapsto> PyNone, ''pk'' \<mapsto> PyInt 1]
     (category_db [\<lparr>cells = [PyStr ''food'', PyInt 3], rowid = 1\<rparr>]) =
     (Inr (), category_db [\<lparr>cells = [PyStr ''books'', PyStr ''None''], rowid = 1\<rparr>]) \<and>
   get category_repo 1 (category_db [\<lparr>cells = [PyStr ''books'', PyStr ''None''], rowid = 1\<rparr>]) =
     Inr (Some [''name'' \<mapsto> PyStr ''books'', ''parent'' \<mapsto> PyStr ''None'', ''pk'' \<mapsto> PyInt 1])"
  by (simp add: update_def sql_update_def get_def sql_select_pk_def category_repo_def
      category_db_def category_model_def field_names_def field_decls_def row_names_def
      select_tuple_def type_check_str type_check_optional_int affinity_def is_digit_def)

text \<open>
  Claim C10, as the lazy \<open>all\<close> behaves. In a well-formed state, for a filter that maps a
  name \<open>a\<close> which is no attribute of the model's objects (neither a declared field nor
  \<open>pk\<close>) and whose earlier keys are declared fields or \<open>pk\<close>, \<open>get_all\<close> raises
  \<open>AttributeError\<close> exactly when some stored record matches every filter entry that comes
  before \<open>a\<close>, and returns the empty list otherwise; so it raises whenever the table has a
  row and \<open>a\<close> is the first key. When the table is empty, \<open>get_all\<close> returns the empty list
  for any filter.
\<close>

theorem get_all_unknown_name:
  assumes "repo_inv repo db" and "db (table_name repo) = Some t"
    and "set (map fst w1) \<subseteq> set (row_names repo)"
    and "a \<notin> set (row_names repo)" and "cls_new (cls repo) a = None"
  shows "\<exists>objs. get_all repo None db = Inr objs \<and>
           get_all repo (Some (w1 @ (a, v) # w2)) db =
             (if \<exists>obj \<in> set objs. \<forall>(b, x) \<in> set w1. obj b = Some x
              then Inl AttributeError else Inr []) \<and>
           (rows t \<noteq> [] \<longrightarrow> get_all repo (Some ((a, v) # w2)) db = Inl AttributeError) \<and>
           (rows t = [] \<longrightarrow> (\<forall>w. get_all repo w db = Inr []))"
proof -
  from inv_objects[OF assms(1,2)] obtain objs where
    o: "build_objs repo (map select_tuple (rows t)) = Inr objs"
       "\<forall>obj \<in> set objs. \<forall>n \<in> set (row_names repo). obj n \<noteq> None"
       "\<forall>obj \<in> set objs. \<forall>n. n \<notin> set (row_names repo) \<longrightarrow> obj n = cls_new (cls repo) n"
    by blast
  have all: "get_all repo None db = Inr objs"
    using assms(2) o(1) by (simp add: get_all_def sql_select_all_def)
  have u: "\<forall>obj \<in> set objs. (\<forall>b \<in> set (map fst w1). obj b \<noteq> None) \<and> obj a = None"
    using o(2,3) assms(3,4,5) by auto
  have f1: "get_all repo (Some (w1 @ (a, v) # w2)) db =
             (if \<exists>obj \<in> set objs. \<forall>(b, x) \<in> set w1. obj b = Some x
              then Inl AttributeError else Inr [])"
    using assms(2) o(1) filter_objs_unknown[OF u] by (simp add: get_all_def sql_select_all_def)
  have u0: "\<forall>obj \<in> set objs. (\<forall>b \<in> set (map fst []). obj b \<noteq> None) \<and> obj a = None"
    using u by simp
  have len: "length objs = length (rows t)"
    using o(1) unfolding build_objs_iff by (auto dest: list_all2_lengthD)
  have f2: "get_all repo (Some ((a, v) # w2)) db = Inl AttributeError" if "rows t \<noteq> []"
  proof -
    from that len have "objs \<noteq> []" by auto
    then have "\<exists>obj. obj \<in> set objs" by (cases objs) auto
    then show ?thesis
      using assms(2) o(1) filter_objs_unknown[OF u0, of v w2]
      by (simp add: get_all_def sql_select_all_def)
  qed
  have f3: "get_all repo w db = Inr []" if "rows t = []" for w
    using that assms(2) by (cases w) (simp_all add: get_all_def sql_select_all_def)
  from all f1 f2 f3 show ?thesis by blast
qed

theorem get_all_unknown_name_witness:
  "repo_inv test_repo (test_db [\<lparr>cells = [PyStr ''a''], rowid = 1\<rparr>]) \<and>
   test_db [\<lparr>cells = [PyStr ''a''], rowid = 1\<rparr>] (table_name test_repo) =
     Some \<lparr>columns = [''comment TEXT'', ''pk INTEGER PRIMARY KEY''],
           rows = [\<lparr>cells = [PyStr ''a''], rowid = 1\<rparr>]\<rparr> \<and>
   set (map fst [(''comment'', PyStr ''a'')]) \<subseteq> set (row_names test_repo) \<and>
   ''bogus'' \<notin> set (row_names test_repo) \<and> cls_new (cls test_repo) ''bogus'' = None \<and>
   get_all test_repo (Some ([(''comment'', PyStr ''a'')] @ (''bogus'', PyInt 1) # []))
     (test_db [\<lparr>cells = [PyStr ''a''], rowid = 1\<rparr>]) = Inl AttributeError \<and>
   get_all test_repo (Some ((''bogus'', PyInt 1) # [(''comment'', PyStr ''b'')]))
     (test_db [\<lparr>cells = [PyStr ''a''], rowid = 1\<rparr>]) = Inl AttributeError"
proof -
  let ?t = "\<lparr>columns = [''comment TEXT'', ''pk INTEGER PRIMARY KEY''],
             rows = [\<lparr>cells = [PyStr ''a''], rowid = 1\<rparr>]\<rparr>"
  have h1: "repo_inv test_repo (test_db [\<lparr>cells = [PyStr ''a''], rowid = 1\<rparr>])"
    by (simp add: repo_inv_def test_repo_def test_db_def field_names_def)
  have h2: "test_db [\<lparr>cells = [PyStr ''a''], rowid = 1\<rparr>] (table_name test_repo) = Some ?t"
    by (simp add: test_repo_def test_db_def)
  have h3: "set (map fst [(''comment'', PyStr ''a'')]) \<subseteq> set (row_names test_repo)"
    by (simp add: row_names_def field_names_def test_repo_def)
  have h4: "''bogus'' \<notin> set (row_names test_repo)"
    by (simp add: row_names_def field_names_def test_repo_def)
  have h5: "cls_new (cls test_repo) ''bogus'' = None"
    by (simp add: test_repo_def test_model_def)
  have all: "get_all test_repo None (test_db [\<lparr>cells = [PyStr ''a''], rowid = 1\<rparr>]) =
               Inr [[''pk'' \<mapsto> PyInt 0, ''comment'' \<mapsto> PyStr ''a'', ''pk'' \<mapsto> PyInt 1]]"
    by (simp add: get_all_def sql_select_all_def test_repo_def test_db_def test_model_def
        select_tuple_def row_names_def field_names_def)
  from get_all_unknown_name[OF h1 h2 h3 h4 h5, of "PyInt 1" "[]"] all
  have a: "get_all test_repo (Some ([(''comment'', PyStr ''a'')] @ (''bogus'', PyInt 1) # []))
     (test_db [\<lparr>cells = [PyStr ''a''], rowid = 1\<rparr>]) = Inl AttributeError"
    by auto
  from get_all_unknown_name[OF h1 h2 h3 h4 h5, of "PyInt 1" "[(''comment'', PyStr ''b'')]"]
  have b: "get_all test_repo (Some ((''bogus'', PyInt 1) # [(''comment'', PyStr ''b'')]))
     (test_db [\<lparr>cells = [PyStr ''a''], rowid = 1\<rparr>]) = Inl AttributeError"
    by auto
  from h1 h2 h3 h4 h5 a b show ?thesis by blast
qed

text \<open>
  Claim C10 as stated fails when an earlier filter entry rules every record out: \<open>all\<close> stops
  at the first entry that does not match, the unknown name is never looked up, and
  \<open>get_all\<close> returns the empty list although the table has a row.
\<close>

theorem get_all_short_circuit_counterexample:
  "get_all test_repo (Some [(''comment'', PyStr ''b''), (''bogus'', PyInt 1)])
     (test_db [\<lparr>cells = [PyStr ''a''], rowid = 1\<rparr>]) = Inr []"
  by (simp add: get_all_def sql_select_all_def test_repo_def test_db_def test_model_def
      select_tuple_def row_names_def field_names_def)

section \<open>Properties of the tree view\<close>

lemma row_count_append_row [simp]: "row_count (append_row it its) = Suc (row_count it)"
  by (simp add: append_row_def row_count_def Let_def)

lemma item_text_append_row [simp]: "item_text (append_row it its) = item_text it"
  by (simp add: append_row_def Let_def)

lemma child_append_row_old:
  "i < row_count it \<Longrightarrow> child (append_row it its) i 0 = child it i 0"
  by (auto simp: append_row_def child_def row_count_def Let_def nth_append pad_row_def)

lemma child_append_row_new:
  "its \<noteq> [] \<Longrightarrow> child (append_row it its) (row_count it) 0 = Some (hd its)"
  by (cases its) (auto simp: append_row_def child_def row_count_def Let_def nth_append pad_row_def)

lemma child_append_row_empty:
  "child (append_row it []) (row_count it) 0 = None"
  by (auto simp: append_row_def child_def row_count_def Let_def nth_append pad_row_def)

lemma child_Some_bounds:
  "child it i j = Some x \<Longrightarrow> i < row_count it \<and> j < length (item_rows it ! i)"
  by (auto simp: child_def split: if_splits)

lemma child_update_same:
  assumes "child it i 0 = Some x"
  shows "child (Item (item_text it) (column_count it)
           ((item_rows it)[i := (item_rows it ! i)[0 := Some y]])) i 0 = Some y"
  using child_Some_bounds[OF assms] by (simp add: child_def row_count_def)

lemma child_update_other:
  assumes "k \<noteq> i"
  shows "child (Item (item_text it) (column_count it)
           ((item_rows it)[i := (item_rows it ! i)[0 := Some y]])) k 0 = child it k 0"
  using assms by (simp add: child_def row_count_def)

lemma item_text_append_row_at [simp]: "item_text (append_row_at p its it) = item_text it"
  by (cases p) (auto split: option.splits)

lemma item_at_append_same:
  "item_at it p = Some x \<Longrightarrow> item_at (append_row_at p its it) p = Some (append_row x its)"
proof (induction p arbitrary: it)
  case Nil
  then show ?case by simp
next
  case (Cons i p)
  then obtain z where z: "child it i 0 = Some z" "item_at z p = Some x"
    by (auto split: option.splits)
  from Cons.IH[OF z(2)] z(1) show ?case
    by (simp add: child_update_same)
qed

lemma item_at_snoc:
  "item_at it (p @ [i]) = (case item_at it p of None \<Rightarrow> None | Some x \<Rightarrow> child x i 0)"
  by (induction p arbitrary: it) (auto split: option.splits)

lemma item_at_persists:
  "item_at it q = Some y \<Longrightarrow>
   \<exists>y'. item_at (append_row_at p its it) q = Some y' \<and> item_text y' = item_text y"
proof (induction q arbitrary: it p)
  case Nil
  then show ?case by simp
next
  case (Cons i q)
  then obtain x where x: "child it i 0 = Some x" "item_at x q = Some y"
    by (auto split: option.splits)
  show ?case
  proof (cases p)
    case Nil
    from x(1) have "i < row_count it" by (auto dest: child_Some_bounds)
    then show ?thesis using x Nil by (simp add: child_append_row_old)
  next
    case p: (Cons k p')
    show ?thesis
    proof (cases "child it k 0")
      case None
      then show ?thesis using x p by simp
    next
      case (Some z)
      show ?thesis
      proof (cases "k = i")
        case True
        with Some x(1) have "z = x" by simp
        from Cons.IH[OF x(2), of p'] obtain y' where
          "item_at (append_row_at p' its x) q = Some y'" "item_text y' = item_text y" by blast
        then show ?thesis
          using p Some True \<open>z = x\<close> by (simp add: child_update_same)
      next
        case False
        then show ?thesis
          using p Some x by (simp add: child_update_other)
      qed
    qed
  qed
qed

lemma attach_result:
  assumes "item_at (root s) p = Some x"
  shows "attach s v p =
           s\<lparr>seen := (seen s)(unique_id v \<mapsto>
                 (if make_row v = [] then None else Some (p @ [row_count x]))),
             root := append_row_at p (make_row v) (root s)\<rparr>"
proof -
  have a: "item_at (append_row_at p (make_row v) (root s)) p = Some (append_row x (make_row v))"
    using assms by (rule item_at_append_same)
  show ?thesis
  proof (cases "make_row v = []")
    case True
    then show ?thesis using a by (simp add: attach_def Let_def child_append_row_empty)
  next
    case False
    then show ?thesis using a by (simp add: attach_def Let_def child_append_row_new)
  qed
qed

lemma loop_done: "queue s = [] \<Longrightarrow> import_loop s = Some (Inr s)"
  by (subst import_loop.simps) simp

lemma loop_requeue:
  "queue s = v # rest \<Longrightarrow> find_parent s v = Requeue \<Longrightarrow>
   import_loop s = import_loop (s\<lparr>queue := rest @ [v]\<rparr>)"
  by (subst import_loop.simps) simp

lemma loop_attach:
  "queue s = v # rest \<Longrightarrow> find_parent s v = Parent (Some p) \<Longrightarrow>
   import_loop s = import_loop (attach (s\<lparr>queue := rest\<rparr>) v p)"
  by (subst import_loop.simps) simp

lemma loop_error:
  "queue s = v # rest \<Longrightarrow> find_parent s v = Parent None \<Longrightarrow>
   import_loop s = Some (Inl AttributeError)"
  by (subst import_loop.simps) simp

lemma queue_attach [simp]: "queue (attach s v p) = queue s"
  by (simp add: attach_def Let_def)

lemma seen_attach: "\<exists>ref. seen (attach s v p) = (seen s)(unique_id v \<mapsto> ref)"
  unfolding attach_def Let_def by (rule exI) simp

lemma find_parent_queue [simp]: "find_parent (s\<lparr>queue := q\<rparr>) v = find_parent s v"
  by (auto simp: find_parent_def split: option.splits)

lemma find_parent_valid:
  assumes "base_inv data s" "all_have_fields data" "find_parent s v = Parent ref"
  shows "\<exists>p. ref = Some p \<and> item_at (root s) p \<noteq> None"
proof (cases "parent_id v = Some 0")
  case True
  with assms(3) have "ref = Some []" by (simp add: find_parent_def)
  then show ?thesis by simp
next
  case False
  with assms(3) obtain pid where "seen s pid = Some ref"
    by (auto simp: find_parent_def split: option.splits)
  with assms(1,2) show ?thesis by (simp add: base_inv_def)
qed

lemma base_inv_requeue:
  assumes "base_inv data s" "queue s = v # rest"
  shows "base_inv data (s\<lparr>queue := rest @ [v]\<rparr>)"
  using assms by (auto simp: base_inv_def)

lemma make_row_nonempty: "other_fields v \<noteq> [] \<Longrightarrow> make_row v \<noteq> []"
  by (simp add: make_row_def)

lemma base_inv_attach:
  assumes inv: "base_inv data s" and q: "queue s = v # rest"
    and f: "find_parent s v = Parent (Some p)"
  shows "base_inv data (attach (s\<lparr>queue := rest\<rparr>) v p)"
proof -
  let ?s = "s\<lparr>queue := rest\<rparr>"
  from inv q have v: "v \<in> set data" and sub: "set rest \<subseteq> set data"
    by (auto simp: base_inv_def)
  obtain ref where ref: "seen (attach ?s v p) = (seen s)(unique_id v \<mapsto> ref)"
    using seen_attach[of ?s v p] by auto
  have 1: "set (queue (attach ?s v p)) \<subseteq> set data" using sub by simp
  have 2: "dom (seen (attach ?s v p)) \<subseteq> unique_id ` set data"
    using inv v by (auto simp: ref base_inv_def)
  have 3: "\<forall>i r. seen (attach ?s v p) i = Some r \<longrightarrow>
             (\<exists>p'. r = Some p' \<and> item_at (root (attach ?s v p)) p' \<noteq> None)"
    if all: "all_have_fields data"
  proof -
    from find_parent_valid[OF inv all f] obtain x where x: "item_at (root s) p = Some x" by auto
    then have x': "item_at (root ?s) p = Some x" by simp
    from all v have row: "make_row v \<noteq> []" by (auto simp: all_have_fields_def make_row_nonempty)
    note a = attach_result[OF x', of v]
    let ?root' = "append_row_at p (make_row v) (root s)"
    have new: "item_at ?root' (p @ [row_count x]) \<noteq> None"
      using item_at_append_same[OF x, of "make_row v"] row
      by (simp add: item_at_snoc child_append_row_new)
    show ?thesis
    proof (intro allI impI)
      fix i r assume "seen (attach ?s v p) i = Some r"
      then have r: "((seen s)(unique_id v \<mapsto> Some (p @ [row_count x]))) i = Some r"
        using a row by simp
      show "\<exists>p'. r = Some p' \<and> item_at (root (attach ?s v p)) p' \<noteq> None"
      proof (cases "i = unique_id v")
        case True
        with r have "r = Some (p @ [row_count x])" by simp
        with new show ?thesis by (simp add: a)
      next
        case False
        with r have "seen s i = Some r" by simp
        moreover from inv all have "\<forall>i ref. seen s i = Some ref \<longrightarrow>
            (\<exists>p. ref = Some p \<and> item_at (root s) p \<noteq> None)" by (simp add: base_inv_def)
        ultimately obtain p' y where "r = Some p'" "item_at (root s) p' = Some y"
          by blast
        with item_at_persists[of "root s" p' y p "make_row v"] show ?thesis
          by (auto simp: a)
      qed
    qed
  qed
  from 1 2 3 show ?thesis unfolding base_inv_def by blast
qed

lemma base_inv_start: "base_inv data (import_start model_root data)"
  by (simp add: base_inv_def import_start_def)

lemma orphan_waits:
  assumes "base_inv data s" "orphan data v"
  shows "find_parent s v = Requeue"
proof (cases "parent_id v")
  case None
  then show ?thesis by (simp add: find_parent_def)
next
  case (Some pid)
  with assms(2) have "pid \<noteq> 0" "pid \<notin> unique_id ` set data"
    by (auto simp: orphan_def)
  with assms(1) have "seen s pid = None" by (auto simp: base_inv_def)
  with Some \<open>pid \<noteq> 0\<close> show ?thesis by (simp add: find_parent_def)
qed

lemma orphan_loop_aux:
  assumes "orphan data w" and l: "import_loop s = Some y"
  shows "base_inv data s \<and> w \<in> set (queue s) \<longrightarrow>
           y = Inl AttributeError \<and> \<not> all_have_fields data"
  using l
proof (induction rule: import_loop.raw_induct[rotated 1, consumes 1, case_names step])
  case (step f s y)
  show ?case
  proof (intro impI, elim conjE)
    assume inv: "base_inv data s" and w: "w \<in> set (queue s)"
    from w obtain v rest where q: "queue s = v # rest" by (cases "queue s") auto
    show "y = Inl AttributeError \<and> \<not> all_have_fields data"
    proof (cases "find_parent s v")
      case Requeue
      from step(2) q Requeue have r: "f (s\<lparr>queue := rest @ [v]\<rparr>) = Some y" by simp
      have "w \<in> set (queue (s\<lparr>queue := rest @ [v]\<rparr>))" using w q by auto
      with step(1)[OF r] base_inv_requeue[OF inv q] show ?thesis by blast
    next
      case (Parent ref)
      show ?thesis
      proof (cases ref)
        case None
        with step(2) q Parent have "y = Inl AttributeError" by simp
        moreover have "\<not> all_have_fields data"
          using find_parent_valid[OF inv _ Parent] None by auto
        ultimately show ?thesis by simp
      next
        case (Some p)
        with step(2) q Parent have r: "f (attach (s\<lparr>queue := rest\<rparr>) v p) = Some y"
          by simp
        from orphan_waits[OF inv assms(1)] Parent have "v \<noteq> w" by auto
        with w q have "w \<in> set (queue (attach (s\<lparr>queue := rest\<rparr>) v p))" by auto
        moreover have "base_inv data (attach (s\<lparr>queue := rest\<rparr>) v p)"
          using inv q Parent Some by (intro base_inv_attach) auto
        ultimately show ?thesis using step(1)[OF r] by blast
      qed
    qed
  qed
qed

lemma orphan_loop:
  assumes "import_loop s = Some y" "base_inv data s" "w \<in> set (queue s)" "orphan data w"
  shows "y = Inl AttributeError \<and> \<not> all_have_fields data"
  using orphan_loop_aux[OF assms(4) assms(1)] assms(2,3) by blast

lemma all_waiting_loop_aux:
  assumes l: "import_loop s = Some y"
  shows "\<not> (queue s \<noteq> [] \<and> (\<forall>v \<in> set (queue s). find_parent s v = Requeue))"
  using l
proof (induction rule: import_loop.raw_induct[rotated 1, consumes 1, case_names step])
  case (step f s y)
  show ?case
  proof
    assume a: "queue s \<noteq> [] \<and> (\<forall>v \<in> set (queue s). find_parent s v = Requeue)"
    then obtain v rest where q: "queue s = v # rest" by (cases "queue s") auto
    with a have w: "find_parent s v = Requeue" by simp
    with step(2) q have r: "f (s\<lparr>queue := rest @ [v]\<rparr>) = Some y" by simp
    have "queue (s\<lparr>queue := rest @ [v]\<rparr>) \<noteq> [] \<and>
          (\<forall>u \<in> set (queue (s\<lparr>queue := rest @ [v]\<rparr>)).
             find_parent (s\<lparr>queue := rest @ [v]\<rparr>) u = Requeue)"
      using a q by auto
    with step(1)[OF r] show False by blast
  qed
qed

lemma all_waiting_loop:
  assumes "import_loop s = Some y" "queue s \<noteq> []"
    "\<forall>v \<in> set (queue s). find_parent s v = Requeue"
  shows False
  using all_waiting_loop_aux[OF assms(1)] assms(2,3) by blast

lemma well_formed_new_item: "well_formed (new_item s)"
  by (simp add: new_item_def)

lemma well_formed_cells:
  assumes "well_formed (Item t c rs)" "r \<in> set rs"
  shows "length r = c" and "Some y \<in> set r \<Longrightarrow> well_formed y"
proof -
  from assms have a: "length r = c \<and>
      (\<forall>x \<in> set r. case x of None \<Rightarrow> True | Some y \<Rightarrow> well_formed y)" by simp
  then show "length r = c" by simp
  assume "Some y \<in> set r"
  with a have "case Some y of None \<Rightarrow> True | Some y \<Rightarrow> well_formed y" by blast
  then show "well_formed y" by simp
qed

lemma well_formed_child:
  assumes "well_formed it" "child it i j = Some x"
  shows "well_formed x"
proof (cases it)
  case (Item t c rs)
  from child_Some_bounds[OF assms(2)] have b: "i < length rs" "j < length (rs ! i)"
    by (simp_all add: Item row_count_def)
  with assms(2) have "rs ! i ! j = Some x" by (simp add: child_def Item row_count_def)
  with b have "rs ! i \<in> set rs" "Some x \<in> set (rs ! i)" by (auto simp: in_set_conv_nth)
  with assms(1) show ?thesis unfolding Item by (rule well_formed_cells(2))
qed

lemma child_within_columns:
  assumes "well_formed it"
  shows "child it i j =
           (if i < row_count it \<and> j < column_count it then item_rows it ! i ! j else None)"
proof (cases it)
  case (Item t c rs)
  have "length (rs ! i) = c" if "i < length rs"
    using assms that well_formed_cells(1)[of t c rs "rs ! i"] by (simp add: Item)
  then show ?thesis by (auto simp: child_def row_count_def Item)
qed

lemma well_formed_append_row:
  assumes "well_formed it" "\<forall>x \<in> set its. well_formed x"
  shows "well_formed (append_row it its)"
proof (cases it)
  case (Item t c rs)
  let ?c = "max c (length its)"
  have old: "length (pad_row ?c r) = ?c \<and>
      (\<forall>x \<in> set (pad_row ?c r). case x of None \<Rightarrow> True | Some y \<Rightarrow> well_formed y)"
    if "r \<in> set rs" for r
  proof -
    from assms(1) that have a: "length r = c"
      "\<forall>x \<in> set r. case x of None \<Rightarrow> True | Some y \<Rightarrow> well_formed y"
      by (simp_all add: Item)
    from a(1) have "length (pad_row ?c r) = ?c" by (simp add: pad_row_def)
    moreover from a(2) have "\<forall>x \<in> set (pad_row ?c r). case x of None \<Rightarrow> True | Some y \<Rightarrow> well_formed y"
      by (auto simp: pad_row_def)
    ultimately show ?thesis by simp
  qed
  have new: "length (pad_row ?c (map Some its)) = ?c \<and>
      (\<forall>x \<in> set (pad_row ?c (map Some its)). case x of None \<Rightarrow> True | Some y \<Rightarrow> well_formed y)"
    using assms(2) by (auto simp: pad_row_def)
  from old new show ?thesis
    by (simp add: append_row_def Let_def Item)
qed

lemma well_formed_update:
  assumes "well_formed it" "child it i 0 = Some x" "well_formed y"
  shows "well_formed (Item (item_text it) (column_count it)
           ((item_rows it)[i := (item_rows it ! i)[0 := Some y]]))"
proof (cases it)
  case (Item t c rs)
  from assms(2) have i: "i < length rs" "0 < length (rs ! i)"
    using child_Some_bounds[OF assms(2)] by (simp_all add: Item row_count_def)
  have "\<forall>r \<in> set (rs[i := (rs ! i)[0 := Some y]]). length r = c \<and>
          (\<forall>x \<in> set r. case x of None \<Rightarrow> True | Some z \<Rightarrow> well_formed z)"
  proof
    fix r assume "r \<in> set (rs[i := (rs ! i)[0 := Some y]])"
    then have "r \<in> set rs \<or> r = (rs ! i)[0 := Some y]"
      by (auto dest: set_update_subset_insert[THEN subsetD])
    then show "length r = c \<and> (\<forall>x \<in> set r. case x of None \<Rightarrow> True | Some z \<Rightarrow> well_formed z)"
    proof
      assume "r \<in> set rs"
      with assms(1) show ?thesis by (simp add: Item)
    next
      assume r: "r = (rs ! i)[0 := Some y]"
      from i(1) have m: "rs ! i \<in> set rs" by simp
      with assms(1) have a: "length (rs ! i) = c"
        "\<forall>x \<in> set (rs ! i). case x of None \<Rightarrow> True | Some z \<Rightarrow> well_formed z"
        by (simp_all add: Item)
      have "\<forall>x \<in> set ((rs ! i)[0 := Some y]). case x of None \<Rightarrow> True | Some z \<Rightarrow> well_formed z"
      proof
        fix x assume "x \<in> set ((rs ! i)[0 := Some y])"
        then have "x \<in> set (rs ! i) \<or> x = Some y"
          by (auto dest: set_update_subset_insert[THEN subsetD])
        with a(2) assms(3) show "case x of None \<Rightarrow> True | Some z \<Rightarrow> well_formed z" by auto
      qed
      with a(1) r show ?thesis by simp
    qed
  qed
  then show ?thesis by (simp add: Item)
qed

lemma well_formed_append_row_at:
  assumes "\<forall>x \<in> set its. well_formed x"
  shows "well_formed it \<Longrightarrow> well_formed (append_row_at p its it)"
proof (induction p arbitrary: it)
  case Nil
  with assms show ?case by (simp add: well_formed_append_row)
next
  case (Cons i p)
  show ?case
  proof (cases "child it i 0")
    case None
    with Cons.prems show ?thesis by simp
  next
    case (Some x)
    from well_formed_child[OF Cons.prems Some] have "well_formed (append_row_at p its x)"
      by (rule Cons.IH)
    from well_formed_update[OF Cons.prems Some this] Some show ?thesis by simp
  qed
qed

lemma well_formed_attach:
  "well_formed (root s) \<Longrightarrow> well_formed (root (attach s v p))"
proof -
  assume w: "well_formed (root s)"
  have "\<forall>x \<in> set (make_row v). well_formed x"
    by (auto simp: make_row_def well_formed_new_item)
  from well_formed_append_row_at[OF this w] show ?thesis
    by (simp add: attach_def Let_def)
qed

lemma well_formed_loop:
  assumes l: "import_loop s = Some y"
  shows "well_formed (root s) \<longrightarrow> (\<forall>s'. y = Inr s' \<longrightarrow> well_formed (root s'))"
  using l
proof (induction rule: import_loop.raw_induct[rotated 1, consumes 1, case_names step])
  case (step f s y)
  show ?case
  proof
    assume w: "well_formed (root s)"
    show "\<forall>s'. y = Inr s' \<longrightarrow> well_formed (root s')"
    proof (cases "queue s")
      case Nil
      with step(2) have "y = Inr s" by simp
      with w show ?thesis by simp
    next
      case (Cons v rest)
      show ?thesis
      proof (cases "find_parent s v")
        case Requeue
        with step(2) Cons have r: "f (s\<lparr>queue := rest @ [v]\<rparr>) = Some y" by simp
        have "well_formed (root (s\<lparr>queue := rest @ [v]\<rparr>))" using w by simp
        with step(1)[OF r] show ?thesis by blast
      next
        case (Parent ref)
        show ?thesis
        proof (cases ref)
          case None
          with step(2) Cons Parent have "y = Inl AttributeError" by simp
          then show ?thesis by simp
        next
          case (Some p)
          with step(2) Cons Parent have r: "f (attach (s\<lparr>queue := rest\<rparr>) v p) = Some y"
            by simp
          have "well_formed (root (s\<lparr>queue := rest\<rparr>))" using w by simp
          then have "well_formed (root (attach (s\<lparr>queue := rest\<rparr>) v p))"
            by (rule well_formed_attach)
          with step(1)[OF r] show ?thesis by blast
        qed
      qed
    qed
  qed
qed

lemma import_data_well_formed:
  "import_data model_root data = Some (Inr t) \<Longrightarrow> well_formed t"
proof -
  assume a: "import_data model_root data = Some (Inr t)"
  then obtain s where s: "import_loop (import_start model_root data) = Some (Inr s)" "t = root s"
    by (auto simp: import_data_def split: option.splits sum.splits)
  have "well_formed (root (import_start model_root data))"
    by (simp add: import_start_def)
  with well_formed_loop[OF s(1)] s(2) show ?thesis by simp
qed

lemma ready_iff:
  "find_parent s v \<noteq> Requeue \<longleftrightarrow>
   parent_id v = Some 0 \<or> (\<exists>k. parent_id v = Some k \<and> k \<in> dom (seen s))"
  by (auto simp: find_parent_def split: option.splits)

lemma rooted_ready:
  assumes "rooted data i" and b: "\<forall>u \<in> set data. u \<in> set (queue s) \<or> unique_id u \<in> dom (seen s)"
  shows "i = Some 0 \<or> (\<exists>k. i = Some k \<and> k \<in> dom (seen s)) \<or>
         (\<exists>v \<in> set (queue s). find_parent s v \<noteq> Requeue)"
  using assms(1)
proof (induction rule: rooted.induct)
  case rooted_zero
  then show ?case by simp
next
  case (rooted_child u)
  show ?case
  proof (cases "\<exists>v \<in> set (queue s). find_parent s v \<noteq> Requeue")
    case True
    then show ?thesis by simp
  next
    case False
    with rooted_child.IH
    have "parent_id u = Some 0 \<or> (\<exists>k. parent_id u = Some k \<and> k \<in> dom (seen s))" by blast
    then have "find_parent s u \<noteq> Requeue" unfolding ready_iff .
    with False have "u \<notin> set (queue s)" by blast
    with b rooted_child.hyps(1) have "unique_id u \<in> dom (seen s)" by blast
    then show ?thesis by simp
  qed
qed

lemma progress:
  assumes "all_rooted data" "loop_inv data s" "queue s \<noteq> []"
  shows "\<exists>v \<in> set (queue s). find_parent s v \<noteq> Requeue"
proof -
  from assms(3) obtain v where v: "v \<in> set (queue s)" by (cases "queue s") auto
  with assms(2) have "v \<in> set data" by (auto simp: loop_inv_def base_inv_def)
  with assms(1) have r: "rooted data (parent_id v)" by (simp add: all_rooted_def)
  from assms(2) have b: "\<forall>u \<in> set data. u \<in> set (queue s) \<or> unique_id u \<in> dom (seen s)"
    by (simp add: loop_inv_def)
  from rooted_ready[OF r b] show ?thesis
  proof (elim disjE)
    assume "parent_id v = Some 0"
    with v show ?thesis by (auto simp: ready_iff)
  next
    assume "\<exists>k. parent_id v = Some k \<and> k \<in> dom (seen s)"
    then have "find_parent s v \<noteq> Requeue" unfolding ready_iff by blast
    with v show ?thesis by blast
  qed
qed

lemma placed_queue [simp]: "placed (s\<lparr>queue := q\<rparr>) v = placed s v"
  by (simp add: placed_def cong: option.case_cong)

lemma loop_inv_requeue:
  assumes "loop_inv data s" "queue s = v # rest"
  shows "loop_inv data (s\<lparr>queue := rest @ [v]\<rparr>)"
proof -
  have 1: "base_inv data (s\<lparr>queue := rest @ [v]\<rparr>)"
    using assms by (intro base_inv_requeue) (auto simp: loop_inv_def)
  have 2: "\<forall>u \<in> set data. u \<in> set (rest @ [v]) \<or> unique_id u \<in> dom (seen s)"
    using assms by (auto simp: loop_inv_def)
  have 3: "distinct (rest @ [v]) \<and> (\<forall>u \<in> set (rest @ [v]). unique_id u \<notin> dom (seen s)) \<and>
           (\<forall>u \<in> set data. u \<notin> set (rest @ [v]) \<longrightarrow> placed s u)"
    if "distinct (map unique_id data)"
    using assms that by (auto simp: loop_inv_def)
  from 1 2 3 show ?thesis by (simp add: loop_inv_def)
qed

lemma loop_inv_start: "loop_inv data (import_start model_root data)"
proof -
  have "distinct data" if "distinct (map unique_id data)"
    using that by (simp add: distinct_map)
  then show ?thesis
    using base_inv_start[of data model_root]
    by (auto simp: loop_inv_def import_start_def)
qed

lemma hd_make_row:
  "other_fields v \<noteq> [] \<Longrightarrow> item_text (hd (make_row v)) = py_str (snd (hd (other_fields v)))"
  by (cases "other_fields v") (auto simp: make_row_def new_item_def)

lemma loop_inv_attach:
  assumes inv: "loop_inv data s" and q: "queue s = v # rest"
    and f: "find_parent s v = Parent (Some p)" and all: "all_have_fields data"
  shows "loop_inv data (attach (s\<lparr>queue := rest\<rparr>) v p)"
proof -
  let ?s = "s\<lparr>queue := rest\<rparr>"
  let ?s' = "attach ?s v p"
  from inv have base: "base_inv data s" by (simp add: loop_inv_def)
  from base q have v: "v \<in> set data" by (auto simp: base_inv_def)
  from find_parent_valid[OF base all f] obtain x where x: "item_at (root s) p = Some x" by auto
  then have x': "item_at (root ?s) p = Some x" by simp
  from all v have fields: "other_fields v \<noteq> []" by (simp add: all_have_fields_def)
  then have row: "make_row v \<noteq> []" by (rule make_row_nonempty)
  let ?p' = "p @ [row_count x]"
  let ?root' = "append_row_at p (make_row v) (root s)"
  have seen': "seen ?s' = (seen s)(unique_id v \<mapsto> Some ?p')"
    and root': "root ?s' = ?root'" and queue': "queue ?s' = rest"
    using attach_result[OF x', of v] row by simp_all
  have new: "item_at ?root' ?p' = Some (hd (make_row v))"
    using item_at_append_same[OF x, of "make_row v"] row
    by (simp add: item_at_snoc child_append_row_new)
  have 1: "base_inv data ?s'" using base q f by (rule base_inv_attach)
  have 2: "\<forall>u \<in> set data. u \<in> set (queue ?s') \<or> unique_id u \<in> dom (seen ?s')"
  proof
    fix u assume "u \<in> set data"
    with inv have "u \<in> set (queue s) \<or> unique_id u \<in> dom (seen s)" by (simp add: loop_inv_def)
    then show "u \<in> set (queue ?s') \<or> unique_id u \<in> dom (seen ?s')"
      unfolding seen' queue' q by auto
  qed
  have 3: "distinct (queue ?s') \<and> (\<forall>u \<in> set (queue ?s'). unique_id u \<notin> dom (seen ?s')) \<and>
           (\<forall>u \<in> set data. u \<notin> set (queue ?s') \<longrightarrow> placed ?s' u)"
    if d: "distinct (map unique_id data)"
  proof -
    from inv d q have dq: "distinct (v # rest)"
      and fresh: "\<forall>u \<in> set (v # rest). unique_id u \<notin> dom (seen s)"
      and finished: "\<forall>u \<in> set data. u \<notin> set (v # rest) \<longrightarrow> placed s u"
      by (auto simp: loop_inv_def)
    from d have inj: "inj_on unique_id (set data)" by (simp add: distinct_map)
    from base q have sub: "set rest \<subseteq> set data" by (auto simp: base_inv_def)
    have ne: "unique_id u \<noteq> unique_id v" if "u \<in> set data" "u \<noteq> v" for u
      using inj that v by (auto dest: inj_onD)
    have vfresh: "unique_id v \<notin> dom (seen s)" using fresh by simp
    have a: "distinct rest" using dq by simp
    have b: "\<forall>u \<in> set rest. unique_id u \<notin> dom (seen ?s')"
    proof
      fix u assume u: "u \<in> set rest"
      with dq have "u \<noteq> v" by auto
      with u sub have "unique_id u \<noteq> unique_id v" by (intro ne) auto
      moreover from u fresh have "unique_id u \<notin> dom (seen s)" by simp
      ultimately show "unique_id u \<notin> dom (seen ?s')" unfolding seen' by simp
    qed
    have pv: "placed ?s' v"
    proof -
      have link: "case parent_id v of None \<Rightarrow> False
          | Some k \<Rightarrow> if k = 0 then butlast ?p' = [] else seen ?s' k = Some (Some (butlast ?p'))"
      proof (cases "parent_id v = Some 0")
        case True
        with f have "p = []" by (simp add: find_parent_def)
        with True show ?thesis by simp
      next
        case False
        with f obtain k where k: "parent_id v = Some k" "seen s k = Some (Some p)"
          by (auto simp: find_parent_def split: option.splits)
        with vfresh have "k \<noteq> unique_id v" by auto
        with k False show ?thesis unfolding seen' by simp
      qed
      show ?thesis
        unfolding placed_def root' 
        using new hd_make_row[OF fields] link
        by (intro exI[of _ ?p'] exI[of _ "hd (make_row v)"]) (simp add: seen')
    qed
    have po: "placed ?s' u" if u: "u \<in> set data" "u \<notin> set (v # rest)" for u
    proof -
      from finished u have "placed s u" by blast
      then obtain pu y where
        pu: "seen s (unique_id u) = Some (Some pu)" "pu \<noteq> []" "item_at (root s) pu = Some y"
            "item_text y = py_str (snd (hd (other_fields u)))"
            "case parent_id u of None \<Rightarrow> False
             | Some k \<Rightarrow> if k = 0 then butlast pu = [] else seen s k = Some (Some (butlast pu))"
        unfolding placed_def by blast
      from u have "u \<noteq> v" by auto
      with u(1) have idne: "unique_id u \<noteq> unique_id v" by (rule ne)
      from item_at_persists[OF pu(3), of p "make_row v"] obtain y' where
        y': "item_at ?root' pu = Some y'" "item_text y' = item_text y" by blast
      have link: "case parent_id u of None \<Rightarrow> False
             | Some k \<Rightarrow> if k = 0 then butlast pu = [] else seen ?s' k = Some (Some (butlast pu))"
      proof (cases "parent_id u")
        case None
        with pu(5) show ?thesis by simp
      next
        case (Some k)
        show ?thesis
        proof (cases "k = 0")
          case True
          with Some pu(5) show ?thesis by simp
        next
          case False
          with Some pu(5) have sk: "seen s k = Some (Some (butlast pu))" by simp
          with vfresh have "k \<noteq> unique_id v" by auto
          with Some False sk show ?thesis unfolding seen' by simp
        qed
      qed
      show ?thesis
        unfolding placed_def root'
        using pu(1,2,4) idne y' link
        by (intro exI[of _ pu] exI[of _ y']) (simp add: seen')
    qed
    have c: "\<forall>u \<in> set data. u \<notin> set rest \<longrightarrow> placed ?s' u"
    proof (intro ballI impI)
      fix u assume u: "u \<in> set data" "u \<notin> set rest"
      show "placed ?s' u"
      proof (cases "u = v")
        case True
        with pv show ?thesis by simp
      next
        case False
        with u po show ?thesis by auto
      qed
    qed
    from a b c show ?thesis unfolding queue' by blast
  qed
  from 1 2 3 show ?thesis unfolding loop_inv_def by blast
qed

lemma waiting_requeue:
  assumes q: "queue s = v # rest" and w: "find_parent s v = Requeue"
    and r: "\<exists>u \<in> set (queue s). find_parent s u \<noteq> Requeue"
  shows "waiting (s\<lparr>queue := rest @ [v]\<rparr>) < waiting s"
proof -
  from r q w obtain u where u: "u \<in> set rest" "find_parent s u \<noteq> Requeue" by auto
  then have "takeWhile (\<lambda>v. find_parent s v = Requeue) (rest @ [v]) =
             takeWhile (\<lambda>v. find_parent s v = Requeue) rest"
    by (intro takeWhile_append1) auto
  then show ?thesis using q w by (simp add: waiting_def)
qed

lemma loop_terminates:
  assumes r: "all_rooted data" and all: "all_have_fields data"
  shows "loop_inv data s \<Longrightarrow>
         \<exists>s'. import_loop s = Some (Inr s') \<and> loop_inv data s' \<and> queue s' = []"
proof (induction "(length (queue s), waiting s)" arbitrary: s
    rule: wf_induct_rule[OF wf_lex_prod[OF wf_less_than wf_less_than], case_names less])
  case less
  show ?case
  proof (cases "queue s")
    case Nil
    with less.prems loop_done[OF Nil] show ?thesis by blast
  next
    case (Cons v rest)
    show ?thesis
    proof (cases "find_parent s v")
      case Requeue
      let ?s' = "s\<lparr>queue := rest @ [v]\<rparr>"
      have inv': "loop_inv data ?s'" using less.prems Cons by (rule loop_inv_requeue)
      have "queue s \<noteq> []" using Cons by simp
      from progress[OF r less.prems this] have "waiting ?s' < waiting s"
        using Cons Requeue by (intro waiting_requeue) auto
      then have "((length (queue ?s'), waiting ?s'), (length (queue s), waiting s))
                   \<in> less_than <*lex*> less_than"
        using Cons by simp
      from less.hyps[OF this inv'] loop_requeue[OF Cons Requeue] show ?thesis by simp
    next
      case (Parent ref)
      from less.prems have base: "base_inv data s" by (simp add: loop_inv_def)
      from find_parent_valid[OF base all Parent] obtain p where p: "ref = Some p" by blast
      let ?s' = "attach (s\<lparr>queue := rest\<rparr>) v p"
      from Parent p have f: "find_parent s v = Parent (Some p)" by simp
      have inv': "loop_inv data ?s'" using less.prems Cons f all by (rule loop_inv_attach)
      have "((length (queue ?s'), waiting ?s'), (length (queue s), waiting s))
                   \<in> less_than <*lex*> less_than"
        using Cons by simp
      from less.hyps[OF this inv'] loop_attach[OF Cons f] show ?thesis by simp
    qed
  qed
qed

lemma import_terminates:
  assumes "all_rooted data" and "all_have_fields data"
  shows "\<exists>s. import_loop (import_start model_root data) = Some (Inr s) \<and>
             import_data model_root data = Some (Inr (root s)) \<and> queue s = [] \<and>
             (distinct (map unique_id data) \<longrightarrow> (\<forall>v \<in> set data. placed s v))"
proof -
  from loop_terminates[OF assms loop_inv_start, of model_root] obtain s where
    s: "import_loop (import_start model_root data) = Some (Inr s)" "loop_inv data s" "queue s = []"
    by blast
  from s(2,3) have "distinct (map unique_id data) \<longrightarrow> (\<forall>v \<in> set data. placed s v)"
    by (simp add: loop_inv_def)
  with s(1,3) show ?thesis by (simp add: import_data_def)
qed

lemma cols_loop_empty_cells:
  "cols_loop names (Suc j) (replicate n None) row lvl = Inr (row, [])"
  by (induction n arbitrary: j) auto

lemmas import_eval =
  import_data_def import_start_def import_loop.simps node_def find_parent_def attach_def
  make_row_def new_item_def append_row_def pad_row_def child_def row_count_def Let_def
  view_root_def view_fields_def flattened_def

lemma example_123:
  "\<exists>rows. flattened extra [node 1 0 ''n1'', node 2 1 ''n2'', node 3 1 ''n3''] = Some (Inr rows) \<and>
     map name_level rows = [(Some ''n1'', Some ''1''), (Some ''n2'', Some ''2''), (Some ''n3'', Some ''2'')]"
  by (simp add: import_eval cols_loop_empty_cells name_level_def show_int_def show_nat.simps
      digit_char_def)

lemma example_132:
  "\<exists>rows. flattened extra [node 1 0 ''n1'', node 3 1 ''n3'', node 2 1 ''n2''] = Some (Inr rows) \<and>
     map name_level rows = [(Some ''n1'', Some ''1''), (Some ''n3'', Some ''2''), (Some ''n2'', Some ''2'')]"
  by (simp add: import_eval cols_loop_empty_cells name_level_def show_int_def show_nat.simps
      digit_char_def)

lemma example_213:
  "\<exists>rows. flattened extra [node 2 1 ''n2'', node 1 0 ''n1'', node 3 1 ''n3''] = Some (Inr rows) \<and>
     map name_level rows = [(Some ''n1'', Some ''1''), (Some ''n3'', Some ''2''), (Some ''n2'', Some ''2'')]"
  by (simp add: import_eval cols_loop_empty_cells name_level_def show_int_def show_nat.simps
      digit_char_def)

lemma example_231:
  "\<exists>rows. flattened extra [node 2 1 ''n2'', node 3 1 ''n3'', node 1 0 ''n1''] = Some (Inr rows) \<and>
     map name_level rows = [(Some ''n1'', Some ''1''), (Some ''n2'', Some ''2''), (Some ''n3'', Some ''2'')]"
  by (simp add: import_eval cols_loop_empty_cells name_level_def show_int_def show_nat.simps
      digit_char_def)

lemma example_312:
  "\<exists>rows. flattened extra [node 3 1 ''n3'', node 1 0 ''n1'', node 2 1 ''n2''] = Some (Inr rows) \<and>
     map name_level rows = [(Some ''n1'', Some ''1''), (Some ''n2'', Some ''2''), (Some ''n3'', Some ''2'')]"
  by (simp add: import_eval cols_loop_empty_cells name_level_def show_int_def show_nat.simps
      digit_char_def)

lemma example_321:
  "\<exists>rows. flattened extra [node 3 1 ''n3'', node 2 1 ''n2'', node 1 0 ''n1''] = Some (Inr rows) \<and>
     map name_level rows = [(Some ''n1'', Some ''1''), (Some ''n3'', Some ''2''), (Some ''n2'', Some ''2'')]"
  by (simp add: import_eval cols_loop_empty_cells name_level_def show_int_def show_nat.simps
      digit_char_def)

section \<open>The claims about the tree view\<close>

text \<open>
  Claim C9, as the code behaves. For every input that contains an orphan, a record whose
  \<open>parent_id\<close> is not 0 and is no record's \<open>unique_id\<close>, \<open>import_data\<close> never returns a
  tree and raises no orphan error: the orphan is put back into the queue for ever. The loop
  can only stop on the \<open>AttributeError\<close> of a row appended to the missing item of a record
  without fields; when every record has a field, it runs for ever.
\<close>

theorem orphan_never_returns:
  assumes "v \<in> set data" and "orphan data v"
  shows "(import_data model_root data = None \<or>
          import_data model_root data = Some (Inl AttributeError)) \<and>
         (all_have_fields data \<longrightarrow> import_data model_root data = None)"
proof (cases "import_loop (import_start model_root data)")
  case None
  then show ?thesis by (simp add: import_data_def)
next
  case (Some y)
  have "v \<in> set (queue (import_start model_root data))"
    using assms(1) by (simp add: import_start_def)
  from orphan_loop[OF Some base_inv_start this assms(2)]
  show ?thesis using Some by (simp add: import_data_def)
qed

theorem orphan_never_returns_witness:
  "node 5 9 ''stray'' \<in> set [node 1 0 ''n1'', node 5 9 ''stray''] \<and>
   orphan [node 1 0 ''n1'', node 5 9 ''stray''] (node 5 9 ''stray'') \<and>
   all_have_fields [node 1 0 ''n1'', node 5 9 ''stray''] \<and>
   import_data (Item [] 2 []) [node 1 0 ''n1'', node 5 9 ''stray''] = None"
proof -
  have h1: "node 5 9 ''stray'' \<in> set [node 1 0 ''n1'', node 5 9 ''stray'']" by simp
  have h2: "orphan [node 1 0 ''n1'', node 5 9 ''stray''] (node 5 9 ''stray'')"
    by (simp add: orphan_def node_def)
  have h3: "all_have_fields [node 1 0 ''n1'', node 5 9 ''stray'']"
    by (simp add: all_have_fields_def node_def)
  from orphan_never_returns[OF h1 h2, of "Item [] 2 []"] h1 h2 h3 show ?thesis by blast
qed

text \<open>
  Claim C9 as stated fails on the input \<open>[{id:1, parent:0}, {id:2, parent:7}]\<close>: no error is
  raised; the loop has no result at all.
\<close>

theorem orphan_counterexample:
  "import_data (Item [] 1 []) [node 1 0 ''n1'', node 2 7 ''n2''] = None"
proof (cases "import_loop (import_start (Item [] 1 []) [node 1 0 ''n1'', node 2 7 ''n2''])")
  case None
  then show ?thesis by (simp add: import_data_def)
next
  case (Some y)
  have 1: "node 2 7 ''n2'' \<in> set (queue (import_start (Item [] 1 []) [node 1 0 ''n1'', node 2 7 ''n2'']))"
    by (simp add: import_start_def)
  have 2: "orphan [node 1 0 ''n1'', node 2 7 ''n2''] (node 2 7 ''n2'')"
    by (simp add: orphan_def node_def)
  have 3: "all_have_fields [node 1 0 ''n1'', node 2 7 ''n2'']"
    by (simp add: all_have_fields_def node_def)
  from orphan_loop[OF Some base_inv_start 1 2] 3 show ?thesis by simp
qed

text \<open>
  Claim C8, for inputs without a cycle. For every input sequence in which following the
  \<open>parent_id\<close>s from any record leads to 0 (so every \<open>parent_id\<close> other than 0 is some
  record's \<open>unique_id\<close> and no record is its own ancestor) and every record has a field
  besides the two identifiers, \<open>import_data\<close> returns, with an empty queue; when the
  \<open>unique_id\<close>s are pairwise different, every record then has an item that shows its first
  field and lies directly under the item of its parent, or directly under the root for
  \<open>parent_id == 0\<close>, whether the parent came before or after it in the input. In
  particular, for the records \<open>{id:2, parent:1}\<close>, \<open>{id:1, parent:0}\<close>, \<open>{id:3, parent:1}\<close>,
  in each of their six orders, the flattened output has node 1 at level 1 and nodes 2 and 3
  at level 2.
\<close>

theorem tree_builder_places_records:
  assumes "all_rooted data" and "all_have_fields data"
  shows "(\<exists>s. import_loop (import_start model_root data) = Some (Inr s) \<and>
              import_data model_root data = Some (Inr (root s)) \<and> queue s = [] \<and>
              (distinct (map unique_id data) \<longrightarrow> (\<forall>v \<in> set data. placed s v))) \<and>
         (\<exists>rows. flattened extra [node 1 0 ''n1'', node 2 1 ''n2'', node 3 1 ''n3''] = Some (Inr rows) \<and>
            map name_level rows = [(Some ''n1'', Some ''1''), (Some ''n2'', Some ''2''), (Some ''n3'', Some ''2'')]) \<and>
         (\<exists>rows. flattened extra [node 1 0 ''n1'', node 3 1 ''n3'', node 2 1 ''n2''] = Some (Inr rows) \<and>
            map name_level rows = [(Some ''n1'', Some ''1''), (Some ''n3'', Some ''2''), (Some ''n2'', Some ''2'')]) \<and>
         (\<exists>rows. flattened extra [node 2 1 ''n2'', node 1 0 ''n1'', node 3 1 ''n3''] = Some (Inr rows) \<and>
            map name_level rows = [(Some ''n1'', Some ''1''), (Some ''n3'', Some ''2''), (Some ''n2'', Some ''2'')]) \<and>
         (\<exists>rows. flattened extra [node 2 1 ''n2'', node 3 1 ''n3'', node 1 0 ''n1''] = Some (Inr rows) \<and>
            map name_level rows = [(Some ''n1'', Some ''1''), (Some ''n2'', Some ''2''), (Some ''n3'', Some ''2'')]) \<and>
         (\<exists>rows. flattened extra [node 3 1 ''n3'', node 1 0 ''n1'', node 2 1 ''n2''] = Some (Inr rows) \<and>
            map name_level rows = [(Some ''n1'', Some ''1''), (Some ''n2'', Some ''2''), (Some ''n3'', Some ''2'')]) \<and>
         (\<exists>rows. flattened extra [node 3 1 ''n3'', node 2 1 ''n2'', node 1 0 ''n1''] = Some (Inr rows) \<and>
            map name_level rows = [(Some ''n1'', Some ''1''), (Some ''n3'', Some ''2''), (Some ''n2'', Some ''2'')])"
proof -
  note general = import_terminates[OF assms, of model_root]
  note examples = example_123[of extra] example_132[of extra] example_213[of extra]
    example_231[of extra] example_312[of extra] example_321[of extra]
  from general examples show ?thesis by (intro conjI)
qed

theorem tree_builder_places_records_witness:
  "all_rooted [node 2 1 ''n2'', node 1 0 ''n1'', node 3 1 ''n3''] \<and>
   all_have_fields [node 2 1 ''n2'', node 1 0 ''n1'', node 3 1 ''n3''] \<and>
   distinct (map unique_id [node 2 1 ''n2'', node 1 0 ''n1'', node 3 1 ''n3'']) \<and>
   (\<exists>s. import_data (view_root []) [node 2 1 ''n2'', node 1 0 ''n1'', node 3 1 ''n3''] = Some (Inr (root s)) \<and>
        queue s = [] \<and>
        placed s (node 2 1 ''n2'') \<and> placed s (node 1 0 ''n1'') \<and> placed s (node 3 1 ''n3''))"
proof -
  let ?D = "[node 2 1 ''n2'', node 1 0 ''n1'', node 3 1 ''n3'']"
  have r0: "rooted ?D (Some 0)" by (rule rooted_zero)
  have r1: "rooted ?D (Some 1)"
    using rooted_child[of "node 1 0 ''n1''" ?D] r0 by (simp add: node_def)
  have h1: "all_rooted ?D" using r0 r1 by (simp add: all_rooted_def node_def)
  have h2: "all_have_fields ?D" by (simp add: all_have_fields_def node_def)
  have h3: "distinct (map unique_id ?D)" by (simp add: node_def)
  from tree_builder_places_records[OF h1 h2, of "view_root []" "[]"] h3 obtain s where
    "import_data (view_root []) ?D = Some (Inr (root s))" "queue s = []"
    "\<forall>v \<in> set ?D. placed s v"
    by blast
  then have "\<exists>s. import_data (view_root []) ?D = Some (Inr (root s)) \<and> queue s = [] \<and>
        placed s (node 2 1 ''n2'') \<and> placed s (node 1 0 ''n1'') \<and> placed s (node 3 1 ''n3'')"
    by (intro exI[of _ s]) simp
  with h1 h2 h3 show ?thesis by blast
qed

text \<open>
  Claim C8 as stated fails on a cycle: in \<open>[{id:1, parent:2}, {id:2, parent:1}]\<close> every
  \<open>parent_id\<close> is some record's \<open>unique_id\<close>, yet neither record ever finds its parent and
  \<open>import_data\<close> never returns.
\<close>

theorem cycle_counterexample:
  "parents_present [node 1 2 ''n1'', node 2 1 ''n2''] \<and>
   import_data (Item [] 1 []) [node 1 2 ''n1'', node 2 1 ''n2''] = None"
proof -
  have "parents_present [node 1 2 ''n1'', node 2 1 ''n2'']"
    by (simp add: parents_present_def node_def)
  moreover have "import_data (Item [] 1 []) [node 1 2 ''n1'', node 2 1 ''n2''] = None"
  proof (cases "import_loop (import_start (Item [] 1 []) [node 1 2 ''n1'', node 2 1 ''n2''])")
  case None
  then show ?thesis by (simp add: import_data_def)
next
  case (Some y)
  have "queue (import_start (Item [] 1 []) [node 1 2 ''n1'', node 2 1 ''n2'']) \<noteq> []"
    by (simp add: import_start_def)
  moreover have "\<forall>v \<in> set (queue (import_start (Item [] 1 []) [node 1 2 ''n1'', node 2 1 ''n2''])).
      find_parent (import_start (Item [] 1 []) [node 1 2 ''n1'', node 2 1 ''n2'']) v = Requeue"
    by (simp add: import_start_def find_parent_def node_def)
  ultimately show ?thesis using all_waiting_loop[OF Some] by blast
qed
  ultimately show ?thesis by simp
qed

end
